theory Spec2Isabelle
  imports Complex_Main "HOL-Library.AList" "HOL-Library.Product_Lexorder" "HOL-Library.Word"
    "HOL-Library.Code_Target_Numeral"
begin

section \<open>The simulation engine\<close>

text \<open>
  The repository is a React front end (\<^verbatim>\<open>src/frontend/src/App.js\<close>) that drives a Flask
  back end over HTTP. The back end (\<^verbatim>\<open>backend/app.py\<close>: the simulation engine and its
  endpoints) is not among the source files; every definition of this section and of the
  next is modelled from the specification. The front end is modelled from its source in
  the section after them.
\<close>

subsection \<open>Constants and data\<close>

text \<open>Modelled from the spec: the engine's constants (page size 4096, a pool of 16 frames,
  a TLB of 4 entries), the four policies and the error taxonomy of section 7; the engine's
  source is missing.\<close>

definition PAGE_SIZE :: nat where
  "PAGE_SIZE = 4096"

definition NUM_FRAMES :: nat where
  "NUM_FRAMES = 16"

definition TLB_SIZE :: nat where
  "TLB_SIZE = 4"

datatype algorithm = FIFO | LRU | Clock | Optimal

datatype error = UnknownProcess | InvalidPage | InvalidInput | InvariantViolation

text \<open>Modelled from the spec: a page table entry (section 3 of the spec).\<close>

record pte =
  frame :: "nat option"
  valid :: bool
  dirty :: bool
  referenced :: bool
  load_order :: nat
  last_used :: nat

definition cold_pte :: pte where
  "cold_pte = \<lparr>frame = None, valid = False, dirty = False, referenced = False,
     load_order = 0, last_used = 0\<rparr>"

text \<open>Modelled from the spec: a process owns a page table with the keys
  \<open>0..pages_needed - 1\<close>, here a list indexed by page number.\<close>

record process =
  pages_needed :: nat
  page_table :: "pte list"

text \<open>Modelled from the spec: the monotonic counters, the steps of a translation's trace
  (the step names; the human-readable descriptions are left out) and the result a
  translation returns.\<close>

record statistics =
  memory_accesses :: nat
  page_faults :: nat
  tlb_hits :: nat
  tlb_misses :: nat

datatype trace_step =
    TlbHit | TlbMiss | PageTableHit | PageFault | Eviction nat nat | PageFaultServiced

record translation =
  physical_address :: nat
  res_frame :: nat
  page_fault :: bool
  tlb_hit :: bool
  translation_steps :: "trace_step list"

text \<open>Modelled from the spec: the one mutable model of a simulation instance. A frame holds
  its occupant \<open>(pid, page)\<close> or is free; the TLB is a list of \<open>((pid, page), frame)\<close>
  entries, oldest first; the FIFO queue, the clock's use bits and hand, and the time stamps
  in the page table entries are the policies' bookkeeping, kept for every resident page
  whichever policy is active, so that switching the policy leaves it in place.
  The history holds \<open>(pid, virtual_address, sequence_number)\<close>.\<close>

record vm_state =
  frames :: "(nat \<times> nat) option list"
  procs :: "(nat \<times> process) list"
  tlb :: "((nat \<times> nat) \<times> nat) list"
  current_algorithm :: algorithm
  fifo_queue :: "(nat \<times> nat) list"
  use_bits :: "bool list"
  clock_hand :: nat
  tick :: nat
  stats :: statistics
  history :: "(nat \<times> nat \<times> nat) list"

definition init_state :: "nat \<Rightarrow> vm_state" where
  "init_state n = \<lparr>frames = replicate n None, procs = [], tlb = [],
     current_algorithm = FIFO, fifo_queue = [], use_bits = replicate n False,
     clock_hand = 0, tick = 0,
     stats = \<lparr>memory_accesses = 0, page_faults = 0, tlb_hits = 0, tlb_misses = 0\<rparr>,
     history = []\<rparr>"

subsection \<open>Page tables\<close>

text \<open>Modelled from the spec: reading and updating the page table entry of \<open>(pid, page)\<close> in
  the process registry; there is no entry for an unknown process or a page outside the
  process's table.\<close>

definition pte_at :: "(nat \<times> process) list \<Rightarrow> nat \<Rightarrow> nat \<Rightarrow> pte option" where
  "pte_at ps p g =
     (case map_of ps p of
        None \<Rightarrow> None
      | Some pr \<Rightarrow> if g < length (page_table pr) then Some (page_table pr ! g) else None)"

definition upd_pte ::
  "(pte \<Rightarrow> pte) \<Rightarrow> nat \<Rightarrow> nat \<Rightarrow> (nat \<times> process) list \<Rightarrow> (nat \<times> process) list" where
  "upd_pte h p g ps =
     (case map_of ps p of
        None \<Rightarrow> ps
      | Some pr \<Rightarrow>
          if g < length (page_table pr)
          then AList.update p (pr\<lparr>page_table := (page_table pr)[g := h (page_table pr ! g)]\<rparr>) ps
          else ps)"

subsection \<open>Frame pool\<close>

text \<open>Modelled from the spec: the frame pool of section 4.1. \<open>allocate_free\<close> finds the first
  free frame, \<open>resident_set\<close> lists the occupied frames as \<open>(pid, page, frame)\<close>.\<close>

definition allocate_free :: "(nat \<times> nat) option list \<Rightarrow> nat option" where
  "allocate_free fr = find (\<lambda>f. fr ! f = None) [0..<length fr]"

definition is_full :: "(nat \<times> nat) option list \<Rightarrow> bool" where
  "is_full fr = (allocate_free fr = None)"

definition occupant :: "(nat \<times> nat) option list \<Rightarrow> nat \<Rightarrow> (nat \<times> nat) option" where
  "occupant fr f = (if f < length fr then fr ! f else None)"

definition resident_set :: "(nat \<times> nat) option list \<Rightarrow> (nat \<times> nat \<times> nat) list" where
  "resident_set fr =
     concat (map (\<lambda>f. case fr ! f of None \<Rightarrow> [] | Some (p, g) \<Rightarrow> [(p, g, f)])
               [0..<length fr])"

subsection \<open>TLB\<close>

text \<open>Modelled from the spec: the TLB. On overflow the least recently inserted entry goes
  (the spec leaves the choice open).\<close>

definition tlb_lookup :: "((nat \<times> nat) \<times> nat) list \<Rightarrow> nat \<Rightarrow> nat \<Rightarrow> nat option" where
  "tlb_lookup t p g = map_of t (p, g)"

definition tlb_invalidate ::
  "((nat \<times> nat) \<times> nat) list \<Rightarrow> nat \<Rightarrow> nat \<Rightarrow> ((nat \<times> nat) \<times> nat) list" where
  "tlb_invalidate t p g = filter (\<lambda>e. fst e \<noteq> (p, g)) t"

definition tlb_invalidate_process ::
  "((nat \<times> nat) \<times> nat) list \<Rightarrow> nat \<Rightarrow> ((nat \<times> nat) \<times> nat) list" where
  "tlb_invalidate_process t p = filter (\<lambda>e. fst (fst e) \<noteq> p) t"

definition tlb_insert ::
  "((nat \<times> nat) \<times> nat) list \<Rightarrow> nat \<Rightarrow> nat \<Rightarrow> nat \<Rightarrow> ((nat \<times> nat) \<times> nat) list" where
  "tlb_insert t p g f =
     (let t1 = tlb_invalidate t p g
      in drop (Suc (length t1) - TLB_SIZE) t1 @ [((p, g), f)])"


subsection \<open>Replacement policies\<close>

text \<open>Modelled from the spec: the clock's scan. The hand clears the use bit of each frame it
  passes and stops at the first occupied frame whose use bit is clear. The first argument
  bounds the scan at two turns of the ring; a scan that finds nothing returns \<open>None\<close>.\<close>

fun clock_scan ::
  "nat \<Rightarrow> (nat \<times> nat) option list \<Rightarrow> bool list \<Rightarrow> nat \<Rightarrow> (nat \<times> bool list) option" where
  "clock_scan 0 fr bits h = None"
| "clock_scan (Suc k) fr bits h =
     (if h < length fr \<and> h < length bits \<and> fr ! h \<noteq> None \<and> \<not> bits ! h
      then Some (h, bits)
      else clock_scan k fr (bits[h := False]) (Suc h mod length fr))"

text \<open>Modelled from the spec: LRU orders the resident pages by the time of last use, ties
  broken by lowest \<open>(pid, page)\<close>; the smallest key is the victim.\<close>

definition lru_key :: "(nat \<times> process) list \<Rightarrow> nat \<times> nat \<times> nat \<Rightarrow> nat \<times> nat \<times> nat" where
  "lru_key ps v =
     (case v of (p, g, f) \<Rightarrow>
        (case pte_at ps p g of None \<Rightarrow> 0 | Some e \<Rightarrow> last_used e, p, g))"

text \<open>Modelled from the spec: the position of the next use of a page in the future accesses
  \<open>(pid, virtual_address)\<close>, if there is one.\<close>

fun next_use :: "(nat \<times> nat) list \<Rightarrow> nat \<Rightarrow> nat \<Rightarrow> nat option" where
  "next_use [] p g = None"
| "next_use ((q, a) # rest) p g =
     (if q = p \<and> a div PAGE_SIZE = g then Some 0 else map_option Suc (next_use rest p g))"

text \<open>Modelled from the spec: Optimal's order. The smallest key is the preferred victim: a
  page that is never used again comes first, then the page whose next use is furthest,
  ties broken by lowest \<open>(pid, page)\<close>.\<close>

definition optimal_key :: "(nat \<times> nat) list \<Rightarrow> nat \<times> nat \<times> nat \<Rightarrow> nat \<times> nat \<times> nat" where
  "optimal_key fut v =
     (case v of (p, g, f) \<Rightarrow>
        (case next_use fut p g of None \<Rightarrow> 0 | Some i \<Rightarrow> Suc (length fut - i), p, g))"

text \<open>Modelled from the spec: victim selection over all resident pages, system-wide. FIFO
  takes the head of the global queue, LRU the least recently used resident page, Clock the
  frame its scan stops at (the hand stays there), Optimal the page with the furthest next
  use in the future accesses the caller supplied (none supplied counts as an empty
  future). An empty resident set, or bookkeeping that names no resident page, is an
  invariant violation.\<close>

definition select_victim ::
  "vm_state \<Rightarrow> (nat \<times> nat) list option \<Rightarrow> error + ((nat \<times> nat \<times> nat) \<times> vm_state)" where
  "select_victim s fut =
     (let rs = resident_set (frames s) in
      if rs = [] then Inl InvariantViolation
      else
        (case current_algorithm s of
           FIFO \<Rightarrow>
             (case fifo_queue s of
                [] \<Rightarrow> Inl InvariantViolation
              | q # _ \<Rightarrow>
                  (case find (\<lambda>v. (fst v, fst (snd v)) = q) rs of
                     None \<Rightarrow> Inl InvariantViolation
                   | Some v \<Rightarrow> Inr (v, s)))
         | LRU \<Rightarrow> Inr (arg_min_list (lru_key (procs s)) rs, s)
         | Clock \<Rightarrow>
             (case clock_scan (2 * length (frames s)) (frames s) (use_bits s) (clock_hand s) of
                None \<Rightarrow> Inl InvariantViolation
              | Some (h, bits) \<Rightarrow>
                  (case frames s ! h of
                     None \<Rightarrow> Inl InvariantViolation
                   | Some (p, g) \<Rightarrow> Inr ((p, g, h), s\<lparr>use_bits := bits, clock_hand := h\<rparr>)))
         | Optimal \<Rightarrow>
             Inr (arg_min_list (optimal_key (case fut of None \<Rightarrow> [] | Some xs \<Rightarrow> xs)) rs, s)))"

subsection \<open>Address translation\<close>

text \<open>Modelled from the spec: the TLB's hit and miss counters, moved by every lookup, and the
  page fault counter.\<close>

definition count_tlb_hit :: "vm_state \<Rightarrow> vm_state" where
  "count_tlb_hit s = s\<lparr>stats := (stats s)\<lparr>tlb_hits := Suc (tlb_hits (stats s))\<rparr>\<rparr>"

definition count_tlb_miss :: "vm_state \<Rightarrow> vm_state" where
  "count_tlb_miss s = s\<lparr>stats := (stats s)\<lparr>tlb_misses := Suc (tlb_misses (stats s))\<rparr>\<rparr>"

definition count_fault :: "vm_state \<Rightarrow> vm_state" where
  "count_fault s = s\<lparr>stats := (stats s)\<lparr>page_faults := Suc (page_faults (stats s))\<rparr>\<rparr>"

text \<open>Modelled from the spec: every successful translation is one memory access. It is
  counted, stamped with the sequence number and appended to the history (the spec gives
  the history no bound, so none is imposed here).\<close>

definition record_access :: "nat \<Rightarrow> nat \<Rightarrow> vm_state \<Rightarrow> vm_state" where
  "record_access p va s =
     s\<lparr>stats := (stats s)\<lparr>memory_accesses := Suc (memory_accesses (stats s))\<rparr>,
       history := history s @ [(p, va, tick s)],
       tick := Suc (tick s)\<rparr>"

text \<open>Modelled from the spec: the policies' \<open>on_access\<close>, which sets the referenced bit, the
  time of last use and the use bit of the frame.\<close>

definition on_access :: "nat \<Rightarrow> nat \<Rightarrow> nat \<Rightarrow> vm_state \<Rightarrow> vm_state" where
  "on_access p g f s =
     s\<lparr>procs := upd_pte (\<lambda>e. e\<lparr>referenced := True, last_used := tick s\<rparr>) p g (procs s),
       use_bits := (use_bits s)[f := True]\<rparr>"

text \<open>Modelled from the spec: eviction. The victim's page table entry is invalidated, its
  frame cleared, its TLB entry invalidated and the policies notified (\<open>on_evict\<close>), in one
  step.\<close>

definition evict_page :: "nat \<times> nat \<times> nat \<Rightarrow> vm_state \<Rightarrow> vm_state" where
  "evict_page v s =
     (case v of (p, g, f) \<Rightarrow>
        s\<lparr>procs := upd_pte (\<lambda>e. e\<lparr>valid := False, frame := None\<rparr>) p g (procs s),
          frames := (frames s)[f := None],
          tlb := tlb_invalidate (tlb s) p g,
          fifo_queue := removeAll (p, g) (fifo_queue s),
          use_bits := (use_bits s)[f := False]\<rparr>)"

text \<open>Modelled from the spec: loading the requested page into a free frame. The entry
  becomes valid, the frame occupied, the policies are notified (\<open>on_load\<close>) and the TLB
  refreshed.\<close>

definition load_page :: "nat \<Rightarrow> nat \<Rightarrow> nat \<Rightarrow> vm_state \<Rightarrow> vm_state" where
  "load_page p g f s =
     s\<lparr>procs := upd_pte (\<lambda>e. e\<lparr>valid := True, frame := Some f, dirty := False,
                   referenced := True, load_order := tick s, last_used := tick s\<rparr>) p g (procs s),
       frames := (frames s)[f := Some (p, g)],
       tlb := tlb_insert (tlb s) p g f,
       fifo_queue := fifo_queue s @ [(p, g)],
       use_bits := (use_bits s)[f := True]\<rparr>"

text \<open>Modelled from the spec: steps 5 and 6 of the translator. The faulting page gets a free
  frame if the pool has one, otherwise the victim's, cleared by the eviction; then the page
  is loaded and the fault counted.\<close>

definition obtain_frame ::
  "vm_state \<Rightarrow> (nat \<times> nat) list option \<Rightarrow> error + (nat \<times> trace_step list \<times> vm_state)" where
  "obtain_frame s fut =
     (case allocate_free (frames s) of
        Some f \<Rightarrow> Inr (f, [], s)
      | None \<Rightarrow>
          (case select_victim s fut of
             Inl e \<Rightarrow> Inl e
           | Inr (v, s') \<Rightarrow>
               Inr (snd (snd v), [Eviction (fst v) (fst (snd v))], evict_page v s')))"

definition handle_fault ::
  "vm_state \<Rightarrow> (nat \<times> nat) list option \<Rightarrow> nat \<Rightarrow> nat \<Rightarrow> nat
     \<Rightarrow> error + (translation \<times> vm_state)" where
  "handle_fault s fut p g va =
     (case obtain_frame s fut of
        Inl e \<Rightarrow> Inl e
      | Inr (f, steps, s1) \<Rightarrow>
          Inr (\<lparr>physical_address = f * PAGE_SIZE + va mod PAGE_SIZE, res_frame = f,
                page_fault = True, tlb_hit = False,
                translation_steps = [TlbMiss, PageFault] @ steps @ [PageFaultServiced]\<rparr>,
               record_access p va (count_fault (load_page p g f s1))))"

text \<open>Modelled from the spec: the translator of section 4.4. An error leaves the state as
  it was, so only a successful translation returns a new state.\<close>

definition translate_address ::
  "vm_state \<Rightarrow> (nat \<times> nat) list option \<Rightarrow> nat \<Rightarrow> nat \<Rightarrow> error + (translation \<times> vm_state)" where
  "translate_address s fut p va =
     (case map_of (procs s) p of
        None \<Rightarrow> Inl UnknownProcess
      | Some pr \<Rightarrow>
          (let g = va div PAGE_SIZE in
           if pages_needed pr \<le> g then Inl InvalidPage
           else
             (case tlb_lookup (tlb s) p g of
                Some f \<Rightarrow>
                  Inr (\<lparr>physical_address = f * PAGE_SIZE + va mod PAGE_SIZE, res_frame = f,
                        page_fault = False, tlb_hit = True, translation_steps = [TlbHit]\<rparr>,
                       record_access p va (on_access p g f (count_tlb_hit s)))
              | None \<Rightarrow>
                  (case pte_at (procs s) p g of
                     None \<Rightarrow> Inl InvariantViolation
                   | Some e \<Rightarrow>
                       if valid e then
                         (case frame e of
                            None \<Rightarrow> Inl InvariantViolation
                          | Some f \<Rightarrow>
                              Inr (\<lparr>physical_address = f * PAGE_SIZE + va mod PAGE_SIZE,
                                    res_frame = f, page_fault = False, tlb_hit = False,
                                    translation_steps = [TlbMiss, PageTableHit]\<rparr>,
                                   record_access p va
                                     (on_access p g f
                                        ((count_tlb_miss s)\<lparr>tlb := tlb_insert (tlb s) p g f\<rparr>))))
                       else handle_fault (count_tlb_miss s) fut p g va))))"

subsection \<open>Processes, policy switch and reset\<close>

text \<open>Modelled from the spec: \<open>create_process(pages)\<close>. The new pid is the smallest unused
  integer from 1 on; the new process has \<open>pages\<close> invalid entries; a count of zero is
  invalid input.\<close>

definition next_pid :: "(nat \<times> process) list \<Rightarrow> nat" where
  "next_pid ps =
     (case find (\<lambda>n. map_of ps n = None) [1..<length ps + 2] of
        Some n \<Rightarrow> n
      | None \<Rightarrow> Suc (fold max (map fst ps) 0))"

definition create_process :: "vm_state \<Rightarrow> nat \<Rightarrow> error + (nat \<times> vm_state)" where
  "create_process s n =
     (if n = 0 then Inl InvalidInput
      else
        (let p = next_pid (procs s)
         in Inr (p, s\<lparr>procs := procs s @
                   [(p, \<lparr>pages_needed = n, page_table = replicate n cold_pte\<rparr>)]\<rparr>)))"

text \<open>Modelled from the spec: \<open>terminate_process(pid)\<close> releases every frame the process
  holds, removes its page table and purges its TLB entries and its pages from the FIFO
  queue. \<open>set_algorithm\<close> switches the active policy and nothing else.\<close>

definition release_frames :: "nat \<Rightarrow> (nat \<times> nat) option list \<Rightarrow> (nat \<times> nat) option list" where
  "release_frames p fr =
     map (\<lambda>occ. case occ of None \<Rightarrow> None | Some v \<Rightarrow> if fst v = p then None else Some v) fr"

definition terminate_process :: "vm_state \<Rightarrow> nat \<Rightarrow> error + vm_state" where
  "terminate_process s p =
     (case map_of (procs s) p of
        None \<Rightarrow> Inl UnknownProcess
      | Some pr \<Rightarrow>
          Inr (s\<lparr>procs := AList.delete p (procs s),
                 frames := release_frames p (frames s),
                 tlb := tlb_invalidate_process (tlb s) p,
                 fifo_queue := filter (\<lambda>v. fst v \<noteq> p) (fifo_queue s)\<rparr>))"

definition set_algorithm :: "vm_state \<Rightarrow> algorithm \<Rightarrow> vm_state" where
  "set_algorithm s a = s\<lparr>current_algorithm := a\<rparr>"

text \<open>Modelled from the spec: \<open>reset()\<close> returns the fresh empty state of the 16-frame
  simulator, whatever the state was.\<close>

definition reset :: "vm_state \<Rightarrow> vm_state" where
  "reset s = init_state NUM_FRAMES"


subsection \<open>Statistics, snapshots and the comparison harness\<close>

text \<open>Modelled from the spec: the derived ratios of section 4.6, never stored.\<close>

definition hit_ratio :: "statistics \<Rightarrow> rat" where
  "hit_ratio st =
     (if memory_accesses st = 0 then 1
      else 1 - of_nat (page_faults st) / of_nat (memory_accesses st))"

definition tlb_hit_ratio :: "statistics \<Rightarrow> rat" where
  "tlb_hit_ratio st =
     (if tlb_hits st + tlb_misses st = 0 then 0
      else of_nat (tlb_hits st) / of_nat (tlb_hits st + tlb_misses st))"

text \<open>Modelled from the spec: the names of the policies at the interface.\<close>

fun algorithm_name :: "algorithm \<Rightarrow> string" where
  "algorithm_name FIFO = ''FIFO''"
| "algorithm_name LRU = ''LRU''"
| "algorithm_name Clock = ''Clock''"
| "algorithm_name Optimal = ''Optimal''"

definition parse_algorithm :: "string \<Rightarrow> algorithm option" where
  "parse_algorithm n =
     (if n = ''FIFO'' then Some FIFO
      else if n = ''LRU'' then Some LRU
      else if n = ''Clock'' then Some Clock
      else if n = ''Optimal'' then Some Optimal
      else None)"

text \<open>Modelled from the spec: the read-only snapshots \<open>memory_state()\<close> and \<open>tlb_state()\<close>,
  with the fields the front end reads: the frames, the processes with their page tables,
  the statistics with the hit ratio, the name of the active policy; the TLB's entries and
  its hit ratio.\<close>

record stats_view =
  sv_memory_accesses :: nat
  sv_page_faults :: nat
  sv_hit_ratio :: rat

record mem_view =
  physical_memory :: "(nat \<times> nat) option list option"
  processes :: "(nat \<times> process) list"
  mv_stats :: "stats_view option"
  mv_current_algorithm :: string

record tlb_view =
  tv_tlb :: "((nat \<times> nat) \<times> nat) list option"
  tv_hit_ratio :: rat

definition memory_state :: "vm_state \<Rightarrow> mem_view" where
  "memory_state s =
     \<lparr>physical_memory = Some (frames s), processes = procs s,
      mv_stats = Some \<lparr>sv_memory_accesses = memory_accesses (stats s),
                       sv_page_faults = page_faults (stats s),
                       sv_hit_ratio = hit_ratio (stats s)\<rparr>,
      mv_current_algorithm = algorithm_name (current_algorithm s)\<rparr>"

definition tlb_state :: "vm_state \<Rightarrow> tlb_view" where
  "tlb_state s = \<lparr>tv_tlb = Some (tlb s), tv_hit_ratio = tlb_hit_ratio (stats s)\<rparr>"

text \<open>Modelled from the spec: replaying a sequence of accesses. An access the translator
  rejects leaves the state as it was and the replay goes on with the next one.
  \<open>create_all\<close> creates one process per page count, and \<open>comparison_of\<close> is the report of
  one policy's run.\<close>

definition access :: "(nat \<times> nat) list option \<Rightarrow> vm_state \<Rightarrow> nat \<times> nat \<Rightarrow> vm_state" where
  "access fut s a =
     (case translate_address s fut (fst a) (snd a) of Inl e \<Rightarrow> s | Inr (r, s') \<Rightarrow> s')"

fun replay :: "(nat \<times> nat) list option \<Rightarrow> vm_state \<Rightarrow> (nat \<times> nat) list \<Rightarrow> vm_state" where
  "replay fut s [] = s"
| "replay fut s (a # rest) = replay fut (access fut s a) rest"

fun create_all :: "vm_state \<Rightarrow> nat list \<Rightarrow> vm_state" where
  "create_all s [] = s"
| "create_all s (n # ns) =
     create_all (case create_process s n of Inl e \<Rightarrow> s | Inr (p, s') \<Rightarrow> s') ns"





subsection \<open>Invariants and reachable states\<close>

text \<open>The states the engine can be in between operations: a fresh pool of any positive
  capacity, and whatever the operations make of it.\<close>

inductive reachable :: "vm_state \<Rightarrow> bool" where
  fresh: "0 < n \<Longrightarrow> reachable (init_state n)"
| created: "reachable s \<Longrightarrow> create_process s n = Inr (p, s') \<Longrightarrow> reachable s'"
| terminated: "reachable s \<Longrightarrow> terminate_process s p = Inr s' \<Longrightarrow> reachable s'"
| switched: "reachable s \<Longrightarrow> reachable (set_algorithm s a)"
| translated: "reachable s \<Longrightarrow> translate_address s fut p va = Inr (r, s') \<Longrightarrow> reachable s'"
| was_reset: "reachable s \<Longrightarrow> reachable (reset s)"

text \<open>Every TLB entry \<open>(pid, page) \<rightarrow> frame\<close> has a valid page table entry with that frame.\<close>

definition tlb_coherent :: "((nat \<times> nat) \<times> nat) list \<Rightarrow> (nat \<times> process) list \<Rightarrow> bool" where
  "tlb_coherent t ps =
     (\<forall>k \<in> set t. \<exists>e. pte_at ps (fst (fst k)) (snd (fst k)) = Some e \<and> valid e
                       \<and> frame e = Some (snd k))"

text \<open>Every occupied frame is the frame of its occupant's valid page table entry.\<close>

definition frames_coherent :: "(nat \<times> nat) option list \<Rightarrow> (nat \<times> process) list \<Rightarrow> bool" where
  "frames_coherent fr ps =
     (\<forall>v \<in> set (resident_set fr). \<exists>e. pte_at ps (fst v) (fst (snd v)) = Some e \<and> valid e
                       \<and> frame e = Some (snd (snd v)))"

text \<open>The FIFO queue holds exactly the resident pages.\<close>

definition queue_ok :: "(nat \<times> nat) list \<Rightarrow> (nat \<times> nat) option list \<Rightarrow> bool" where
  "queue_ok q fr = (set q = (\<lambda>v. (fst v, fst (snd v))) ` set (resident_set fr))"

definition tables_ok :: "(nat \<times> process) list \<Rightarrow> bool" where
  "tables_ok ps = (\<forall>p pr. map_of ps p = Some pr \<longrightarrow> length (page_table pr) = pages_needed pr)"

definition inv :: "vm_state \<Rightarrow> bool" where
  "inv s \<longleftrightarrow>
     tlb_coherent (tlb s) (procs s) \<and> frames_coherent (frames s) (procs s) \<and>
     queue_ok (fifo_queue s) (frames s) \<and>
     length (use_bits s) = length (frames s) \<and> clock_hand s < length (frames s) \<and>
     page_faults (stats s) \<le> memory_accesses (stats s) \<and> tables_ok (procs s)"

text \<open>The states a benchmark cell's replay passes through against the modelled endpoints:
  the invariant holds, the pool has its 16 frames, and the only process is process 1, with
  8 pages.\<close>

definition cell_state :: "vm_state \<Rightarrow> bool" where
  "cell_state s \<longleftrightarrow>
     inv s \<and> length (frames s) = NUM_FRAMES \<and>
     (\<forall>q. map_option pages_needed (map_of (procs s) q) = (if q = 1 then Some 8 else None))"


section \<open>The HTTP interface\<close>

text \<open>A JavaScript number as the front end produces it: \<open>NaN\<close>, an integer that a double
  holds exactly (up to \<open>2^53\<close> in absolute value), or the double nearest to a larger
  integer, which is carried along but not computed.\<close>

datatype js_number = NaN | Num int | Rounded int

definition to_number :: "int \<Rightarrow> js_number" where
  "to_number v = (if \<bar>v\<bar> \<le> 2 ^ 53 then Num v else Rounded v)"

text \<open>The requests \<^verbatim>\<open>App.js\<close> sends with axios, with their JSON bodies.\<close>

datatype request =
    PostReset
  | PostCreateProcess js_number
  | PostSetAlgorithm string
  | PostTranslateAddress js_number js_number
  | GetMemoryState
  | GetTlbState
  | GetWorkingSets

text \<open>The part of a response body the front end reads: \<^verbatim>\<open>data.success\<close>,
  \<^verbatim>\<open>data.memory_state\<close> (for \<^verbatim>\<open>GET /memory_state\<close> the body itself), \<^verbatim>\<open>data.result\<close>,
  the TLB snapshot and \<^verbatim>\<open>data.working_sets\<close>. Results and working sets are only stored
  and displayed, so they are kept as text.\<close>

record response =
  resp_success :: bool
  resp_memory_state :: "mem_view option"
  resp_result :: "string option"
  resp_tlb :: "tlb_view option"
  resp_working_sets :: "string option"

text \<open>A back end, as the front end sees it: a request either is rejected (axios throws an
  error with a message) or resolves with a response, and the server's state moves on.\<close>

type_synonym 'b backend = "'b \<Rightarrow> request \<Rightarrow> (string + response) \<times> 'b"

definition no_data :: response where
  "no_data = \<lparr>resp_success = False, resp_memory_state = None, resp_result = None,
     resp_tlb = None, resp_working_sets = None\<rparr>"

fun error_message :: "error \<Rightarrow> string" where
  "error_message UnknownProcess = ''UnknownProcess''"
| "error_message InvalidPage = ''InvalidPage''"
| "error_message InvalidInput = ''InvalidInput''"
| "error_message InvariantViolation = ''InvariantViolation''"

text \<open>Modelled from the spec: the Flask endpoints, which are not among the source files.
  Each endpoint runs one engine operation. A structured failure leaves the state
  unchanged; whether it travels with an HTTP error status (axios rejects) or inside a
  successful response is the flag \<open>rj\<close>, since the spec leaves the transport open.
  Numbers that are not non-negative exact integers are invalid input. The text of results
  and working sets is not modelled.\<close>

definition failure :: "bool \<Rightarrow> error \<Rightarrow> vm_state \<Rightarrow> (string + response) \<times> vm_state" where
  "failure rj e s = (if rj then (Inl (error_message e), s) else (Inr no_data, s))"

definition ok_state :: "vm_state \<Rightarrow> (string + response) \<times> vm_state" where
  "ok_state s = (Inr (no_data\<lparr>resp_success := True, resp_memory_state := Some (memory_state s)\<rparr>), s)"

fun api :: "bool \<Rightarrow> vm_state backend" where
  "api rj s PostReset = ok_state (reset s)"
| "api rj s (PostCreateProcess (Num n)) =
     (if n < 0 then failure rj InvalidInput s
      else (case create_process s (nat n) of
              Inl e \<Rightarrow> failure rj e s
            | Inr (p, s') \<Rightarrow> ok_state s'))"
| "api rj s (PostCreateProcess _) = failure rj InvalidInput s"
| "api rj s (PostSetAlgorithm name) =
     (case parse_algorithm name of
        None \<Rightarrow> failure rj InvalidInput s
      | Some a \<Rightarrow> ok_state (set_algorithm s a))"
| "api rj s (PostTranslateAddress (Num p) (Num va)) =
     (if p < 0 \<or> va < 0 then failure rj InvalidInput s
      else (case translate_address s None (nat p) (nat va) of
              Inl e \<Rightarrow> failure rj e s
            | Inr (r, s') \<Rightarrow>
                (Inr (no_data\<lparr>resp_success := True, resp_memory_state := Some (memory_state s'),
                              resp_result := Some []\<rparr>), s')))"
| "api rj s (PostTranslateAddress _ _) = failure rj InvalidInput s"
| "api rj s GetMemoryState =
     (Inr (no_data\<lparr>resp_success := True, resp_memory_state := Some (memory_state s)\<rparr>), s)"
| "api rj s GetTlbState =
     (Inr (no_data\<lparr>resp_success := True, resp_tlb := Some (tlb_state s)\<rparr>), s)"
| "api rj s GetWorkingSets =
     (Inr (no_data\<lparr>resp_success := True, resp_working_sets := Some []\<rparr>), s)"

section \<open>The front end (\<^verbatim>\<open>src/frontend/src/App.js\<close>)\<close>

subsection \<open>\<^verbatim>\<open>parseInt\<close>\<close>

text \<open>A JavaScript string is a sequence of UTF-16 code units; \<open>js_str\<close> gives the code units
  of a string of Latin-1 characters, to write literals.\<close>

type_synonym js_string = "16 word list"

definition js_str :: "string \<Rightarrow> js_string" where
  "js_str cs = map of_char cs"

text \<open>JavaScript's \<^verbatim>\<open>parseInt(string, radix)\<close>, as ECMAScript defines it: leading white space
  is dropped, then a sign, then (for radix 16 or none) a prefix \<^verbatim>\<open>0x\<close> or \<^verbatim>\<open>0X\<close>; the longest
  run of digits of the radix is read, and an empty run gives \<open>NaN\<close>. A radix of 0 stands for
  a missing radix. The digits are \<^verbatim>\<open>0-9\<close> (code units 48 to 57), \<^verbatim>\<open>a-z\<close> (97 to 122) and
  \<^verbatim>\<open>A-Z\<close> (65 to 90). White space is what \<^verbatim>\<open>TrimString\<close> removes, ECMAScript's \<^verbatim>\<open>WhiteSpace\<close>
  and \<^verbatim>\<open>LineTerminator\<close>: U+0009 to U+000D, U+0020, U+00A0, U+1680, U+2000 to U+200A,
  U+2028, U+2029, U+202F, U+205F, U+3000 and U+FEFF.\<close>

definition digit_value :: "16 word \<Rightarrow> nat option" where
  "digit_value c =
     (let n = unat c in
      if 48 \<le> n \<and> n \<le> 57 then Some (n - 48)
      else if 97 \<le> n \<and> n \<le> 122 then Some (n - 87)
      else if 65 \<le> n \<and> n \<le> 90 then Some (n - 55)
      else None)"

definition is_digit :: "nat \<Rightarrow> 16 word \<Rightarrow> bool" where
  "is_digit radix c = (case digit_value c of None \<Rightarrow> False | Some d \<Rightarrow> d < radix)"

definition is_white :: "16 word \<Rightarrow> bool" where
  "is_white c =
     (let n = unat c in
      n \<in> {9, 10, 11, 12, 13, 32, 160, 5760, 8232, 8233, 8239, 8287, 12288, 65279}
        \<or> (8192 \<le> n \<and> n \<le> 8202))"

definition digits_value :: "nat \<Rightarrow> js_string \<Rightarrow> nat" where
  "digits_value radix z =
     fold (\<lambda>c acc. acc * radix + (case digit_value c of None \<Rightarrow> 0 | Some d \<Rightarrow> d)) z 0"

definition parseInt :: "js_string \<Rightarrow> nat \<Rightarrow> js_number" where
  "parseInt str radix =
     (let s0 = dropWhile is_white str;
          sign = (if take 1 s0 = js_str ''-'' then - 1 else 1 :: int);
          s1 = (if take 1 s0 = js_str ''-'' \<or> take 1 s0 = js_str ''+'' then drop 1 s0 else s0)
      in if radix \<noteq> 0 \<and> (radix < 2 \<or> 36 < radix) then NaN
         else
           (let strip = (radix = 0 \<or> radix = 16);
                prefixed = (strip \<and> (take 2 s1 = js_str ''0x'' \<or> take 2 s1 = js_str ''0X''));
                r = (if prefixed then 16 else if radix = 0 then 10 else radix);
                s2 = (if prefixed then drop 2 s1 else s1);
                z = takeWhile (is_digit r) s2
            in if z = [] then NaN else to_number (sign * int (digits_value r z))))"

text \<open>\<^verbatim>\<open>parseInt\<close> of a number converts it to its decimal string and parses that: a
  non-negative integer that a JavaScript number holds exactly comes back unchanged.\<close>

definition parseInt_number :: "nat \<Rightarrow> js_number" where
  "parseInt_number n = to_number (int n)"

text \<open>The value of a string of digits read by position in a radix, most significant digit
  first: what ``the base-16 value of the input'' means for a string of hexadecimal digits.\<close>

fun positional_value :: "nat \<Rightarrow> js_string \<Rightarrow> nat" where
  "positional_value radix [] = 0"
| "positional_value radix (c # cs) =
     (case digit_value c of None \<Rightarrow> 0 | Some d \<Rightarrow> d) * radix ^ length cs
       + positional_value radix cs"

text \<open>The parts \<^verbatim>\<open>parseInt\<close> with radix 16 sees in a string: the leading white space \<open>ws\<close>,
  the sign \<open>sg\<close> and the prefix \<open>px\<close> if there are any, the run of hexadecimal digits \<open>ds\<close>
  and what follows it, each part as long as it can be.\<close>

definition hex_parts ::
  "js_string \<Rightarrow> js_string \<Rightarrow> js_string \<Rightarrow> js_string \<Rightarrow> js_string \<Rightarrow> bool" where
  "hex_parts ws sg px ds rest \<longleftrightarrow>
     (\<forall>c \<in> set ws. is_white c) \<and>
     (sg @ px @ ds @ rest = [] \<or> \<not> is_white (hd (sg @ px @ ds @ rest))) \<and>
     (sg = js_str ''-'' \<or> sg = js_str ''+'' \<or>
        sg = [] \<and> take 1 (px @ ds @ rest) \<noteq> js_str ''-''
                \<and> take 1 (px @ ds @ rest) \<noteq> js_str ''+'') \<and>
     (px = js_str ''0x'' \<or> px = js_str ''0X'' \<or>
        px = [] \<and> take 2 (ds @ rest) \<noteq> js_str ''0x'' \<and> take 2 (ds @ rest) \<noteq> js_str ''0X'') \<and>
     (\<forall>c \<in> set ds. is_digit 16 c) \<and>
     (rest = [] \<or> \<not> is_digit 16 (hd rest))"

subsection \<open>The component's state\<close>

record cell_result =
  cell_page_faults :: nat
  cell_hit_ratio :: rat
  cell_execution_time :: rat
  cell_error :: "string option"

record system_resources =
  frameUtilization :: rat
  tlbUtilization :: rat
  algorithmEfficiency :: rat

text \<open>The React state the modelled handlers read and write. Times are milliseconds; the
  interval handle of the demo is a number.\<close>

record app_state =
  memoryState :: "mem_view option"
  currentAlgorithm :: string
  selectedProcess :: js_string
  virtualAddress :: js_string
  translationResult :: "string option"
  isRunning :: bool
  demoResults :: "string list"
  connectionStatus :: string
  error :: "string option"
  algorithmComparison :: "string option"
  report :: "string option"
  workingSets :: "string option"
  tlbState :: "tlb_view option"
  showComparison :: bool
  showReport :: bool
  showTlb :: bool
  showWorkingSets :: bool
  startTime :: nat
  lastAccessTime :: "nat option"
  showRealTimeMonitor :: bool
  benchmarkResults :: "(string \<times> (string \<times> cell_result) list) list option"
  showBenchmark :: bool
  isBenchmarkRunning :: bool
  systemResources :: system_resources
  showSystemResources :: bool
  demoIntervalRef :: "nat option"

subsection \<open>\<^verbatim>\<open>calculateSystemResources\<close>\<close>

text \<open>The three percentages, before \<^verbatim>\<open>toFixed(1)\<close> prints them. A missing or zero
  \<^verbatim>\<open>hit_ratio\<close> is falsy and gives 0.\<close>

definition calculateSystemResources :: "app_state \<Rightarrow> app_state" where
  "calculateSystemResources fs =
     (case memoryState fs of
        None \<Rightarrow> fs
      | Some m \<Rightarrow>
          (let totalFrames =
                 (case physical_memory m of
                    None \<Rightarrow> 16
                  | Some pm \<Rightarrow> if length pm = 0 then 16 else length pm);
               usedFrames =
                 (case physical_memory m of
                    None \<Rightarrow> 0
                  | Some pm \<Rightarrow> length (filter (\<lambda>fr. fr \<noteq> None) pm));
               tlbEntries =
                 (case tlbState fs of
                    None \<Rightarrow> 0
                  | Some t \<Rightarrow> (case tv_tlb t of None \<Rightarrow> 0 | Some es \<Rightarrow> length es));
               efficiency =
                 (case mv_stats m of
                    None \<Rightarrow> 0
                  | Some st \<Rightarrow> if sv_hit_ratio st \<noteq> 0 then sv_hit_ratio st * 100 else 0)
           in fs\<lparr>systemResources :=
                   \<lparr>frameUtilization = of_nat usedFrames / of_nat totalFrames * 100,
                    tlbUtilization = of_nat tlbEntries / 4 * 100,
                    algorithmEfficiency = efficiency\<rparr>\<rparr>))"


subsection \<open>\<^verbatim>\<open>runBenchmark\<close>\<close>

text \<open>The three access patterns, in the order of \<^verbatim>\<open>Object.keys\<close>. \<^verbatim>\<open>Math.random()\<close> is
  the function \<open>rnd\<close>: its value at \<open>i\<close> is the \<open>i\<close>-th number drawn, the first twenty for
  the random pattern and the next twenty for the locality pattern. \<^verbatim>\<open>0x1000\<close> is 4096 and
  \<^verbatim>\<open>0x10000\<close> is 65536.\<close>

definition sequential_sequence :: "(nat \<times> nat) list" where
  "sequential_sequence = map (\<lambda>i. (1, i * 4096)) [0..<20]"

definition random_sequence :: "(nat \<Rightarrow> rat) \<Rightarrow> (nat \<times> nat) list" where
  "random_sequence rnd = map (\<lambda>i. (1, nat \<lfloor>rnd i * 65536\<rfloor>)) [0..<20]"

definition localityBase :: "nat list" where
  "localityBase = [4096, 8192, 12288]"

definition locality_sequence :: "(nat \<Rightarrow> rat) \<Rightarrow> (nat \<times> nat) list" where
  "locality_sequence rnd =
     map (\<lambda>i. (1, localityBase ! (i mod 3) + (if rnd (20 + i) < 8 / 10 then 0 else 4096)))
       [0..<20]"

definition benchmarkSequences :: "(nat \<Rightarrow> rat) \<Rightarrow> (string \<times> (nat \<times> nat) list) list" where
  "benchmarkSequences rnd =
     [(''sequential'', sequential_sequence),
      (''random'', random_sequence rnd),
      (''locality'', locality_sequence rnd)]"

definition algorithms :: "string list" where
  "algorithms = [''FIFO'', ''LRU'', ''Clock'']"

text \<open>The policies the user can select (the algorithm buttons).\<close>

definition selectable_algorithms :: "string list" where
  "selectable_algorithms = [''FIFO'', ''LRU'', ''Clock'', ''Optimal'']"

text \<open>The replay loop of a cell: one awaited request per access; a rejected request throws
  out of the loop.\<close>

fun replay_requests :: "'b backend \<Rightarrow> (nat \<times> nat) list \<Rightarrow> 'b \<Rightarrow> (string + unit) \<times> 'b" where
  "replay_requests be [] b = (Inr (), b)"
| "replay_requests be ((pid, addr) # rest) b =
     (case be b (PostTranslateAddress (parseInt_number pid) (parseInt_number addr)) of
        (Inl msg, b') \<Rightarrow> (Inl msg, b')
      | (Inr r, b') \<Rightarrow> replay_requests be rest b')"

text \<open>The body of the inner \<^verbatim>\<open>try\<close>: reset, create a process of 8 pages, set the algorithm,
  replay, read the statistics. \<open>elapsed\<close> is the difference of the two readings of
  \<^verbatim>\<open>performance.now()\<close>. Reading \<^verbatim>\<open>stats.page_faults\<close> of a body without \<^verbatim>\<open>stats\<close> throws a
  TypeError.\<close>

definition try_cell ::
  "'b backend \<Rightarrow> rat \<Rightarrow> string \<Rightarrow> (nat \<times> nat) list \<Rightarrow> 'b \<Rightarrow> (string + cell_result) \<times> 'b" where
  "try_cell be elapsed algorithm sequence b =
     (case be b PostReset of
        (Inl msg, b1) \<Rightarrow> (Inl msg, b1)
      | (Inr r1, b1) \<Rightarrow>
     (case be b1 (PostCreateProcess (Num 8)) of
        (Inl msg, b2) \<Rightarrow> (Inl msg, b2)
      | (Inr r2, b2) \<Rightarrow>
     (case be b2 (PostSetAlgorithm algorithm) of
        (Inl msg, b3) \<Rightarrow> (Inl msg, b3)
      | (Inr r3, b3) \<Rightarrow>
     (case replay_requests be sequence b3 of
        (Inl msg, b4) \<Rightarrow> (Inl msg, b4)
      | (Inr u, b4) \<Rightarrow>
     (case be b4 GetMemoryState of
        (Inl msg, b5) \<Rightarrow> (Inl msg, b5)
      | (Inr memState, b5) \<Rightarrow>
          (case (case resp_memory_state memState of None \<Rightarrow> None | Some m \<Rightarrow> mv_stats m) of
             None \<Rightarrow> (Inl ''Cannot read properties of undefined'', b5)
           | Some st \<Rightarrow>
               (Inr \<lparr>cell_page_faults = sv_page_faults st, cell_hit_ratio = sv_hit_ratio st,
                     cell_execution_time = elapsed, cell_error = None\<rparr>, b5)))))))"

text \<open>The inner \<^verbatim>\<open>try\<close> with its \<^verbatim>\<open>catch\<close>: a cell.\<close>

definition run_cell ::
  "'b backend \<Rightarrow> rat \<Rightarrow> string \<Rightarrow> (nat \<times> nat) list \<Rightarrow> 'b \<Rightarrow> cell_result \<times> 'b" where
  "run_cell be elapsed algorithm sequence b =
     (case try_cell be elapsed algorithm sequence b of
        (Inl msg, b') \<Rightarrow>
          (\<lparr>cell_page_faults = 0, cell_hit_ratio = 0, cell_execution_time = 0,
            cell_error = Some msg\<rparr>, b')
      | (Inr c, b') \<Rightarrow> (c, b'))"

text \<open>The two loops, over the algorithms and over the patterns. \<open>elapsed\<close> gives the time
  measured for each cell.\<close>

fun run_algorithms ::
  "'b backend \<Rightarrow> (string \<Rightarrow> rat) \<Rightarrow> (nat \<times> nat) list \<Rightarrow> string list \<Rightarrow> 'b
     \<Rightarrow> (string \<times> cell_result) list \<times> 'b" where
  "run_algorithms be elapsed sequence [] b = ([], b)"
| "run_algorithms be elapsed sequence (algorithm # rest) b =
     (case run_cell be (elapsed algorithm) algorithm sequence b of
        (c, b1) \<Rightarrow>
          (case run_algorithms be elapsed sequence rest b1 of
             (cs, b2) \<Rightarrow> ((algorithm, c) # cs, b2)))"

fun run_patterns ::
  "'b backend \<Rightarrow> (string \<Rightarrow> string \<Rightarrow> rat) \<Rightarrow> (string \<times> (nat \<times> nat) list) list \<Rightarrow> 'b
     \<Rightarrow> (string \<times> (string \<times> cell_result) list) list \<times> 'b" where
  "run_patterns be elapsed [] b = ([], b)"
| "run_patterns be elapsed ((pattern, sequence) # rest) b =
     (case run_algorithms be (elapsed pattern) sequence algorithms b of
        (cs, b1) \<Rightarrow>
          (case run_patterns be elapsed rest b1 of
             (rs, b2) \<Rightarrow> ((pattern, cs) # rs, b2)))"

definition runBenchmark ::
  "'b backend \<Rightarrow> (nat \<Rightarrow> rat) \<Rightarrow> (string \<Rightarrow> string \<Rightarrow> rat) \<Rightarrow> app_state \<Rightarrow> 'b
     \<Rightarrow> app_state \<times> 'b" where
  "runBenchmark be rnd elapsed fs b =
     (if connectionStatus fs \<noteq> ''connected''
      then (fs\<lparr>error := Some ''Not connected to backend''\<rparr>, b)
      else
        (case run_patterns be elapsed (benchmarkSequences rnd) b of
           (results, b') \<Rightarrow>
             (fs\<lparr>benchmarkResults := Some results, showBenchmark := True,
                 isBenchmarkRunning := False\<rparr>, b')))"

subsection \<open>\<^verbatim>\<open>fetchTlbState\<close>, \<^verbatim>\<open>fetchWorkingSets\<close>, \<^verbatim>\<open>translateAddress\<close>, \<^verbatim>\<open>resetSimulator\<close>\<close>

definition fetchTlbState :: "'b backend \<Rightarrow> app_state \<Rightarrow> 'b \<Rightarrow> app_state \<times> 'b" where
  "fetchTlbState be fs b =
     (if connectionStatus fs \<noteq> ''connected'' then (fs, b)
      else
        (case be b GetTlbState of
           (Inl msg, b') \<Rightarrow> (fs, b')
         | (Inr r, b') \<Rightarrow> (if resp_success r then fs\<lparr>tlbState := resp_tlb r\<rparr> else fs, b')))"

definition fetchWorkingSets :: "'b backend \<Rightarrow> app_state \<Rightarrow> 'b \<Rightarrow> app_state \<times> 'b" where
  "fetchWorkingSets be fs b =
     (if connectionStatus fs \<noteq> ''connected'' then (fs, b)
      else
        (case be b GetWorkingSets of
           (Inl msg, b') \<Rightarrow> (fs, b')
         | (Inr r, b') \<Rightarrow>
             (if resp_success r then fs\<lparr>workingSets := resp_working_sets r\<rparr> else fs, b')))"

text \<open>The request \<^verbatim>\<open>translateAddress\<close> sends, if its guards let it send one: the process id
  parsed without a radix, the virtual address parsed with radix 16.\<close>

definition translate_request :: "app_state \<Rightarrow> request option" where
  "translate_request fs =
     (if selectedProcess fs = [] \<or> virtualAddress fs = [] then None
      else if connectionStatus fs \<noteq> ''connected'' then None
      else Some (PostTranslateAddress (parseInt (selectedProcess fs) 0)
                   (parseInt (virtualAddress fs) 16)))"

definition translateAddress :: "'b backend \<Rightarrow> nat \<Rightarrow> app_state \<Rightarrow> 'b \<Rightarrow> app_state \<times> 'b" where
  "translateAddress be now fs b =
     (if selectedProcess fs = [] \<or> virtualAddress fs = []
      then (fs\<lparr>error := Some ''Please select a process and enter a virtual address''\<rparr>, b)
      else if connectionStatus fs \<noteq> ''connected''
      then (fs\<lparr>error := Some ''Not connected to backend''\<rparr>, b)
      else
        (case be b (PostTranslateAddress (parseInt (selectedProcess fs) 0)
                      (parseInt (virtualAddress fs) 16)) of
           (Inl msg, b') \<Rightarrow> (fs\<lparr>error := Some (''Error translating address: '' @ msg)\<rparr>, b')
         | (Inr r, b') \<Rightarrow>
             (case fetchTlbState be
                     (fs\<lparr>translationResult := resp_result r,
                         memoryState := resp_memory_state r,
                         error := None, lastAccessTime := Some now\<rparr>) b' of
                (fs1, b1) \<Rightarrow> fetchWorkingSets be fs1 b1)))"

definition resetSimulator :: "'b backend \<Rightarrow> nat \<Rightarrow> app_state \<Rightarrow> 'b \<Rightarrow> app_state \<times> 'b" where
  "resetSimulator be now fs b =
     (if connectionStatus fs \<noteq> ''connected''
      then (fs\<lparr>error := Some ''Not connected to backend''\<rparr>, b)
      else
        (case be b PostReset of
           (Inl msg, b') \<Rightarrow> (fs\<lparr>error := Some (''Error resetting simulator: '' @ msg)\<rparr>, b')
         | (Inr r, b') \<Rightarrow>
             (if resp_success r
              then (fs\<lparr>memoryState := resp_memory_state r,
                       translationResult := None,
                       demoResults := [],
                       currentAlgorithm := ''FIFO'',
                       selectedProcess := [],
                       virtualAddress := [],
                       algorithmComparison := None,
                       report := None,
                       workingSets := None,
                       tlbState := None,
                       showComparison := False,
                       showReport := False,
                       showTlb := False,
                       showWorkingSets := False,
                       showRealTimeMonitor := False,
                       showBenchmark := False,
                       showSystemResources := False,
                       benchmarkResults := None,
                       lastAccessTime := None,
                       startTime := now,
                       error := None,
                       demoIntervalRef := None,
                       isRunning := False\<rparr>, b')
              else (fs, b'))))"


subsection \<open>A recording back end\<close>

text \<open>A back end that accepts every request with an empty response and keeps the list of
  the requests it received: it shows which requests a handler sends, in which order.\<close>

definition recorder :: "request list backend" where
  "recorder seen req = (Inr no_data, seen @ [req])"

text \<open>A back end that keeps the list of the requests it received and rejects every
  \<^verbatim>\<open>translate_address\<close> request: against it every replay fails at its first access.\<close>

definition rejecting_recorder :: "request list backend" where
  "rejecting_recorder seen req =
     (case req of
        PostTranslateAddress pid addr \<Rightarrow> (Inl ''rejected'', seen @ [req])
      | _ \<Rightarrow> (Inr no_data, seen @ [req]))"

text \<open>Any back end, made to keep the list of the requests it received next to its state:
  its answers and its state are those of the back end.\<close>

definition logged :: "'b backend \<Rightarrow> ('b \<times> request list) backend" where
  "logged be bs req = (case be (fst bs) req of (r, b') \<Rightarrow> (r, (b', snd bs @ [req])))"

text \<open>The requests of a cell of \<^verbatim>\<open>runBenchmark\<close>, in the order of the \<^verbatim>\<open>try\<close> block: the
  cell sends them one after the other and stops at the first that throws.\<close>

definition cell_requests :: "string \<Rightarrow> (nat \<times> nat) list \<Rightarrow> request list" where
  "cell_requests algorithm sequence =
     [PostReset, PostCreateProcess (Num 8), PostSetAlgorithm algorithm]
       @ map (\<lambda>a. PostTranslateAddress (parseInt_number (fst a)) (parseInt_number (snd a))) sequence
       @ [GetMemoryState]"

subsection \<open>The initial state of the component\<close>

text \<open>The initial values of the \<^verbatim>\<open>useState\<close> hooks; \<open>now\<close> is the time of the first
  render.\<close>

definition initial_app_state :: "nat \<Rightarrow> app_state" where
  "initial_app_state now =
     \<lparr>memoryState = None, currentAlgorithm = ''FIFO'', selectedProcess = [],
      virtualAddress = [], translationResult = None, isRunning = False, demoResults = [],
      connectionStatus = ''connecting'', error = None, algorithmComparison = None,
      report = None, workingSets = None, tlbState = None, showComparison = False,
      showReport = False, showTlb = False, showWorkingSets = False, startTime = now,
      lastAccessTime = None, showRealTimeMonitor = False, benchmarkResults = None,
      showBenchmark = False, isBenchmarkRunning = False,
      systemResources = \<lparr>frameUtilization = 0, tlbUtilization = 0, algorithmEfficiency = 0\<rparr>,
      showSystemResources = False, demoIntervalRef = None\<rparr>"

section \<open>Properties of the engine\<close>

subsection \<open>Page tables, frames, TLB and the clock's scan\<close>

lemma pte_at_upd_pte:
  "pte_at (upd_pte h p g ps) p' g' =
     (if p' = p \<and> g' = g then map_option h (pte_at ps p g) else pte_at ps p' g')"
  by (auto simp: pte_at_def upd_pte_def update_conv' split: option.splits)

lemma map_of_upd_pte_pages:
  "map_option pages_needed (map_of (upd_pte h p g ps) q) = map_option pages_needed (map_of ps q)"
  by (auto simp: upd_pte_def update_conv' split: option.splits)

lemma allocate_free_Some:
  "allocate_free fr = Some f \<Longrightarrow> f < length fr \<and> fr ! f = None"
  by (auto simp: allocate_free_def find_Some_iff)

lemma allocate_free_None:
  "allocate_free fr = None \<longleftrightarrow> (\<forall>f < length fr. fr ! f \<noteq> None)"
  by (auto simp: allocate_free_def find_None_iff)

lemma set_tlb_insert:
  "set (tlb_insert t p g f) \<subseteq> insert ((p, g), f) {e \<in> set t. fst e \<noteq> (p, g)}"
  unfolding tlb_insert_def tlb_invalidate_def Let_def
  using set_drop_subset by fastforce


lemma resident_set_iff:
  "(p, g, f) \<in> set (resident_set fr) \<longleftrightarrow> f < length fr \<and> fr ! f = Some (p, g)"
  by (auto simp: resident_set_def split: option.splits)

lemma map_of_drop_None: "map_of t k = None \<Longrightarrow> map_of (drop n t) k = None"
  by (metis map_of_eq_None_iff set_drop_subset image_mono subsetD)

lemma map_of_filter_key: "map_of (filter (\<lambda>e. fst e \<noteq> k) t) k = None"
  by (induction t) auto

lemma tlb_lookup_insert: "tlb_lookup (tlb_insert t p g f) p g = Some f"
  unfolding tlb_lookup_def tlb_insert_def tlb_invalidate_def Let_def
  by (simp add: map_add_def map_of_drop_None map_of_filter_key)

lemma clock_scan_length:
  "clock_scan k fr bits h = Some (h', bits') \<Longrightarrow>
     length bits' = length bits \<and> h' < length fr \<and> fr ! h' \<noteq> None"
  by (induction k fr bits h rule: clock_scan.induct) (auto split: if_splits)

lemma count_clear:
  "h < length bits \<Longrightarrow> bits ! h \<Longrightarrow>
     length (filter (\<lambda>b. b) (bits[h := False])) < length (filter (\<lambda>b. b) bits)"
proof (induction bits arbitrary: h)
  case Nil then show ?case by simp
next
  case (Cons b bs)
  show ?case
  proof (cases h)
    case 0 with Cons.prems show ?thesis by simp
  next
    case (Suc j)
    with Cons.prems Cons.IH[of j] show ?thesis by simp
  qed
qed

lemma clock_scan_succeeds:
  "\<forall>f < length fr. fr ! f \<noteq> None \<Longrightarrow> length bits = length fr \<Longrightarrow> h < length fr \<Longrightarrow>
   length (filter (\<lambda>b. b) bits) < k \<Longrightarrow> \<exists>r. clock_scan k fr bits h = Some r"
proof (induction k arbitrary: bits h)
  case 0 then show ?case by simp
next
  case (Suc k)
  show ?case
  proof (cases "bits ! h")
    case False
    with Suc.prems show ?thesis by simp
  next
    case True
    have lt: "length (filter (\<lambda>b. b) (bits[h := False])) < length (filter (\<lambda>b. b) bits)"
      using count_clear True Suc.prems by simp
    have pos: "Suc h mod length fr < length fr"
      using Suc.prems by (intro mod_less_divisor) auto
    have "\<exists>r. clock_scan k fr (bits[h := False]) (Suc h mod length fr) = Some r"
      using Suc.prems lt pos by (intro Suc.IH) auto
    with True show ?thesis by simp
  qed
qed

subsection \<open>The invariant, piece by piece\<close>

lemma tables_ok_upd_pte: "tables_ok ps \<Longrightarrow> tables_ok (upd_pte h p g ps)"
  by (auto simp: tables_ok_def upd_pte_def update_conv' split: option.splits if_splits)

lemma tlb_coherent_upd_keep:
  assumes "tlb_coherent t ps" and "\<And>e. valid (h e) = valid e \<and> frame (h e) = frame e"
  shows "tlb_coherent t (upd_pte h p g ps)"
  using assms unfolding tlb_coherent_def by (fastforce simp: pte_at_upd_pte)

lemma tlb_coherent_invalidate:
  assumes "tlb_coherent t ps"
  shows "tlb_coherent (tlb_invalidate t p g) (upd_pte h p g ps)"
  using assms unfolding tlb_coherent_def tlb_invalidate_def
  by (auto simp: pte_at_upd_pte prod_eq_iff)

lemma tlb_coherent_insert:
  assumes "tlb_coherent t ps" and "pte_at ps p g = Some e" and "valid e" and "frame e = Some f"
  shows "tlb_coherent (tlb_insert t p g f) ps"
  using assms set_tlb_insert[of t p g f] unfolding tlb_coherent_def by auto

lemma tlb_coherent_load:
  assumes "tlb_coherent t ps" and "pte_at ps p g = Some e"
    and "\<And>e. valid (h e) \<and> frame (h e) = Some f"
  shows "tlb_coherent (tlb_insert t p g f) (upd_pte h p g ps)"
  using assms set_tlb_insert[of t p g f] unfolding tlb_coherent_def
  by (auto simp: pte_at_upd_pte prod_eq_iff)

lemma frames_coherent_iff:
  "frames_coherent fr ps \<longleftrightarrow>
     (\<forall>f p g. f < length fr \<and> fr ! f = Some (p, g) \<longrightarrow>
        (\<exists>e. pte_at ps p g = Some e \<and> valid e \<and> frame e = Some f))"
proof
  assume a: "frames_coherent fr ps"
  show "\<forall>f p g. f < length fr \<and> fr ! f = Some (p, g) \<longrightarrow>
        (\<exists>e. pte_at ps p g = Some e \<and> valid e \<and> frame e = Some f)"
  proof (intro allI impI)
    fix f p g assume "f < length fr \<and> fr ! f = Some (p, g)"
    then have "(p, g, f) \<in> set (resident_set fr)" by (simp add: resident_set_iff)
    with a show "\<exists>e. pte_at ps p g = Some e \<and> valid e \<and> frame e = Some f"
      unfolding frames_coherent_def by fastforce
  qed
next
  assume "\<forall>f p g. f < length fr \<and> fr ! f = Some (p, g) \<longrightarrow>
        (\<exists>e. pte_at ps p g = Some e \<and> valid e \<and> frame e = Some f)"
  then show "frames_coherent fr ps"
    unfolding frames_coherent_def by (auto simp: resident_set_iff)
qed

lemma frames_coherent_upd_keep:
  assumes "frames_coherent fr ps" and "\<And>e. valid (h e) = valid e \<and> frame (h e) = frame e"
  shows "frames_coherent fr (upd_pte h p g ps)"
  using assms unfolding frames_coherent_iff by (fastforce simp: pte_at_upd_pte)

lemma frames_coherent_evict:
  assumes c: "frames_coherent fr ps" and f: "f < length fr" and o: "fr ! f = Some (p, g)"
  shows "frames_coherent (fr[f := None]) (upd_pte h p g ps)"
  unfolding frames_coherent_iff
proof (intro allI impI)
  fix f' p' g'
  assume a: "f' < length (fr[f := None]) \<and> fr[f := None] ! f' = Some (p', g')"
  then have ne: "f' \<noteq> f" and lt: "f' < length fr" and o': "fr ! f' = Some (p', g')"
    using f by (auto simp: nth_list_update split: if_splits)
  from c lt o' obtain e where e: "pte_at ps p' g' = Some e" "valid e" "frame e = Some f'"
    unfolding frames_coherent_iff by blast
  from c f o obtain e0 where e0: "pte_at ps p g = Some e0" "frame e0 = Some f"
    unfolding frames_coherent_iff by blast
  have "(p', g') \<noteq> (p, g)" using e e0 ne by auto
  then show "\<exists>e. pte_at (upd_pte h p g ps) p' g' = Some e \<and> valid e \<and> frame e = Some f'"
    using e by (auto simp: pte_at_upd_pte)
qed

lemma frames_coherent_load:
  assumes c: "frames_coherent fr ps" and e: "pte_at ps p g = Some e" and nv: "\<not> valid e"
    and f: "f < length fr" and h: "\<And>e. valid (h e) \<and> frame (h e) = Some f"
  shows "frames_coherent (fr[f := Some (p, g)]) (upd_pte h p g ps)"
  unfolding frames_coherent_iff
proof (intro allI impI)
  fix f' p' g'
  assume a: "f' < length (fr[f := Some (p, g)]) \<and> fr[f := Some (p, g)] ! f' = Some (p', g')"
  show "\<exists>e. pte_at (upd_pte h p g ps) p' g' = Some e \<and> valid e \<and> frame e = Some f'"
  proof (cases "f' = f")
    case True
    with a f have "p' = p" "g' = g" by auto
    with True e h show ?thesis by (auto simp: pte_at_upd_pte)
  next
    case False
    with a have lt: "f' < length fr" and o': "fr ! f' = Some (p', g')" by auto
    from c lt o' obtain e' where e': "pte_at ps p' g' = Some e'" "valid e'" "frame e' = Some f'"
      unfolding frames_coherent_iff by blast
    have "(p', g') \<noteq> (p, g)" using e e' nv by auto
    then show ?thesis using e' by (auto simp: pte_at_upd_pte)
  qed
qed

lemma queue_ok_iff:
  "queue_ok q fr \<longleftrightarrow> (\<forall>p g. (p, g) \<in> set q \<longleftrightarrow> (\<exists>f < length fr. fr ! f = Some (p, g)))"
proof -
  have img: "\<And>p g. (p, g) \<in> (\<lambda>v. (fst v, fst (snd v))) ` set (resident_set fr)
      \<longleftrightarrow> (\<exists>f < length fr. fr ! f = Some (p, g))"
  proof
    fix p g
    assume "(p, g) \<in> (\<lambda>v. (fst v, fst (snd v))) ` set (resident_set fr)"
    then obtain v where v: "v \<in> set (resident_set fr)" "(p, g) = (fst v, fst (snd v))" by blast
    then have "(p, g, snd (snd v)) \<in> set (resident_set fr)" by simp
    then show "\<exists>f < length fr. fr ! f = Some (p, g)" by (auto simp: resident_set_iff)
  next
    fix p g
    assume "\<exists>f < length fr. fr ! f = Some (p, g)"
    then obtain f where "(p, g, f) \<in> set (resident_set fr)" by (auto simp: resident_set_iff)
    then show "(p, g) \<in> (\<lambda>v. (fst v, fst (snd v))) ` set (resident_set fr)" by force
  qed
  show ?thesis
  proof
    assume "queue_ok q fr"
    then show "\<forall>p g. (p, g) \<in> set q \<longleftrightarrow> (\<exists>f < length fr. fr ! f = Some (p, g))"
      unfolding queue_ok_def using img by simp
  next
    assume a: "\<forall>p g. (p, g) \<in> set q \<longleftrightarrow> (\<exists>f < length fr. fr ! f = Some (p, g))"
    show "queue_ok q fr" unfolding queue_ok_def
    proof (intro set_eqI)
      fix x :: "nat \<times> nat"
      obtain p g where x: "x = (p, g)" by (cases x)
      show "x \<in> set q \<longleftrightarrow> x \<in> (\<lambda>v. (fst v, fst (snd v))) ` set (resident_set fr)"
        unfolding x using a img by simp
    qed
  qed
qed

lemma queue_ok_evict:
  assumes q: "queue_ok q fr" and c: "frames_coherent fr ps" and f: "f < length fr"
    and o: "fr ! f = Some (p, g)"
  shows "queue_ok (removeAll (p, g) q) (fr[f := None])"
  unfolding queue_ok_iff
proof (intro allI)
  fix p' g'
  have uniq: "\<And>f'. f' < length fr \<Longrightarrow> fr ! f' = Some (p, g) \<Longrightarrow> f' = f"
    using c f o unfolding frames_coherent_iff by (metis option.inject)
  show "((p', g') \<in> set (removeAll (p, g) q)) =
        (\<exists>f' < length (fr[f := None]). fr[f := None] ! f' = Some (p', g'))"
  proof (cases "(p', g') = (p, g)")
    case True
    have "\<not> (\<exists>f' < length fr. fr[f := None] ! f' = Some (p, g))"
    proof
      assume "\<exists>f' < length fr. fr[f := None] ! f' = Some (p, g)"
      then obtain f' where f': "f' < length fr" "fr[f := None] ! f' = Some (p, g)" by blast
      then have "f' \<noteq> f" using f by auto
      with f' have "fr ! f' = Some (p, g)" by simp
      with uniq f' \<open>f' \<noteq> f\<close> show False by blast
    qed
    with True show ?thesis by simp
  next
    case False
    have "(\<exists>f' < length fr. fr[f := None] ! f' = Some (p', g')) \<longleftrightarrow>
          (\<exists>f' < length fr. fr ! f' = Some (p', g'))"
    proof
      assume "\<exists>f' < length fr. fr[f := None] ! f' = Some (p', g')"
      then obtain f' where f': "f' < length fr" "fr[f := None] ! f' = Some (p', g')" by blast
      then have "f' \<noteq> f" using f by auto
      with f' show "\<exists>f' < length fr. fr ! f' = Some (p', g')" by auto
    next
      assume "\<exists>f' < length fr. fr ! f' = Some (p', g')"
      then obtain f' where f': "f' < length fr" "fr ! f' = Some (p', g')" by blast
      then have "f' \<noteq> f" using o False by auto
      with f' show "\<exists>f' < length fr. fr[f := None] ! f' = Some (p', g')" by auto
    qed
    then show ?thesis using False q unfolding queue_ok_iff by auto
  qed
qed

lemma queue_ok_load:
  assumes q: "queue_ok q fr" and f: "f < length fr" and o: "fr ! f = None"
  shows "queue_ok (q @ [(p, g)]) (fr[f := Some (p, g)])"
  unfolding queue_ok_iff
proof (intro allI)
  fix p' g'
  have "(\<exists>f' < length fr. fr[f := Some (p, g)] ! f' = Some (p', g')) \<longleftrightarrow>
        (p', g') = (p, g) \<or> (\<exists>f' < length fr. fr ! f' = Some (p', g'))"
  proof
    assume "\<exists>f' < length fr. fr[f := Some (p, g)] ! f' = Some (p', g')"
    then obtain f' where f': "f' < length fr" "fr[f := Some (p, g)] ! f' = Some (p', g')" by blast
    show "(p', g') = (p, g) \<or> (\<exists>f' < length fr. fr ! f' = Some (p', g'))"
    proof (cases "f' = f")
      case True with f' f show ?thesis by auto
    next
      case False with f' show ?thesis by auto
    qed
  next
    assume "(p', g') = (p, g) \<or> (\<exists>f' < length fr. fr ! f' = Some (p', g'))"
    then show "\<exists>f' < length fr. fr[f := Some (p, g)] ! f' = Some (p', g')"
    proof
      assume "(p', g') = (p, g)"
      with f show ?thesis by (intro exI[of _ f]) simp
    next
      assume "\<exists>f' < length fr. fr ! f' = Some (p', g')"
      then obtain f' where f': "f' < length fr" "fr ! f' = Some (p', g')" by blast
      then have "f' \<noteq> f" using o by auto
      with f' show ?thesis by (intro exI[of _ f']) simp
    qed
  qed
  then show "((p', g') \<in> set (q @ [(p, g)])) =
        (\<exists>f' < length (fr[f := Some (p, g)]). fr[f := Some (p, g)] ! f' = Some (p', g'))"
    using q unfolding queue_ok_iff by auto
qed

subsection \<open>Victim selection\<close>

lemma resident_set_replicate: "resident_set (replicate n None) = []"
proof -
  have "v \<notin> set (resident_set (replicate n None))" for v
  proof
    assume a: "v \<in> set (resident_set (replicate n None))"
    obtain p g f where "v = (p, g, f)" by (cases v) auto
    with a show False by (auto simp: resident_set_iff)
  qed
  then show ?thesis by (cases "resident_set (replicate n None)") auto
qed

lemma inv_init_state: "0 < n \<Longrightarrow> inv (init_state n)"
  by (simp add: inv_def init_state_def tlb_coherent_def frames_coherent_def queue_ok_def
      tables_ok_def resident_set_replicate)

lemma select_victim_shape:
  assumes "select_victim s fut = Inr (v, s')"
  shows "v \<in> set (resident_set (frames s)) \<and>
         (\<exists>bits h. s' = s\<lparr>use_bits := bits, clock_hand := h\<rparr> \<and>
            length bits = length (use_bits s) \<and> (h < length (frames s) \<or> h = clock_hand s))"
proof (cases "current_algorithm s")
  case FIFO
  with assms show ?thesis
    by (auto simp: select_victim_def Let_def find_Some_iff split: if_splits list.splits option.splits
        intro!: exI[of _ "use_bits s"] exI[of _ "clock_hand s"])
next
  case LRU
  with assms show ?thesis
    by (auto simp: select_victim_def Let_def arg_min_list_in split: if_splits
        intro!: exI[of _ "use_bits s"] exI[of _ "clock_hand s"])
next
  case Clock
  with assms obtain h bits p g where
    sc: "clock_scan (2 * length (frames s)) (frames s) (use_bits s) (clock_hand s) = Some (h, bits)"
    and o: "frames s ! h = Some (p, g)" and v: "v = (p, g, h)"
    and s': "s' = s\<lparr>use_bits := bits, clock_hand := h\<rparr>"
    by (auto simp: select_victim_def Let_def split: if_splits option.splits)
  from sc have "length bits = length (use_bits s)" "h < length (frames s)"
    using clock_scan_length by blast+
  with o v s' show ?thesis by (auto simp: resident_set_iff)
next
  case Optimal
  with assms show ?thesis
    by (auto simp: select_victim_def Let_def arg_min_list_in split: if_splits
        intro!: exI[of _ "use_bits s"] exI[of _ "clock_hand s"])
qed

lemma count_true_le: "length (filter (\<lambda>b. b) bits) \<le> length bits"
  by simp

lemma select_victim_succeeds:
  assumes i: "inv s" and full: "allocate_free (frames s) = None"
  shows "\<exists>v s'. select_victim s fut = Inr (v, s')"
proof -
  from i have hand: "clock_hand s < length (frames s)" and len: "length (use_bits s) = length (frames s)"
    and q: "queue_ok (fifo_queue s) (frames s)"
    by (auto simp: inv_def)
  from full have occ: "\<forall>f < length (frames s). frames s ! f \<noteq> None"
    by (simp add: allocate_free_None)
  from hand occ obtain p g where o: "frames s ! clock_hand s = Some (p, g)" by fastforce
  with hand have r: "(p, g, clock_hand s) \<in> set (resident_set (frames s))"
    by (simp add: resident_set_iff)
  then have ne: "resident_set (frames s) \<noteq> []" by auto
  show ?thesis
  proof (cases "current_algorithm s")
    case FIFO
    from q hand o have "(p, g) \<in> set (fifo_queue s)" unfolding queue_ok_iff by blast
    then obtain q0 qs where qq: "fifo_queue s = q0 # qs" by (cases "fifo_queue s") auto
    then have "q0 \<in> set (fifo_queue s)" by simp
    with q obtain f where "f < length (frames s)" "frames s ! f = Some q0"
      unfolding queue_ok_iff by (cases q0) blast
    then have "(fst q0, snd q0, f) \<in> set (resident_set (frames s))"
      by (simp add: resident_set_iff)
    then have "\<exists>v \<in> set (resident_set (frames s)). (fst v, fst (snd v)) = q0" by force
    then have "find (\<lambda>v. (fst v, fst (snd v)) = q0) (resident_set (frames s)) \<noteq> None"
      using find_None_iff[of "\<lambda>v. (fst v, fst (snd v)) = q0" "resident_set (frames s)"] by blast
    with FIFO ne qq show ?thesis by (auto simp: select_victim_def)
  next
    case LRU
    with ne have "select_victim s fut =
        Inr (arg_min_list (lru_key (procs s)) (resident_set (frames s)), s)"
      by (simp add: select_victim_def)
    then show ?thesis by blast
  next
    case Clock
    have "length (filter (\<lambda>b. b) (use_bits s)) < 2 * length (frames s)"
      using count_true_le[of "use_bits s"] len hand by linarith
    with occ len hand obtain r where
      r: "clock_scan (2 * length (frames s)) (frames s) (use_bits s) (clock_hand s) = Some r"
      using clock_scan_succeeds by blast
    obtain h bits where rr: "r = (h, bits)" by (cases r)
    from r rr have "frames s ! h \<noteq> None" using clock_scan_length by blast
    with Clock ne r rr show ?thesis by (auto simp: select_victim_def)
  next
    case Optimal
    with ne have "select_victim s fut =
        Inr (arg_min_list (optimal_key (case fut of None \<Rightarrow> [] | Some xs \<Rightarrow> xs))
               (resident_set (frames s)), s)"
      by (simp add: select_victim_def)
    then show ?thesis by blast
  qed
qed

subsection \<open>The operations keep the invariant\<close>

lemma inv_count_tlb_hit: "inv s \<Longrightarrow> inv (count_tlb_hit s)"
  by (simp add: inv_def count_tlb_hit_def)

lemma inv_count_tlb_miss: "inv s \<Longrightarrow> inv (count_tlb_miss s)"
  by (simp add: inv_def count_tlb_miss_def)

lemma inv_record_access: "inv s \<Longrightarrow> inv (record_access p va s)"
  by (simp add: inv_def record_access_def)

lemma inv_record_fault: "inv s \<Longrightarrow> inv (record_access p va (count_fault s))"
  by (simp add: inv_def record_access_def count_fault_def)

lemma inv_on_access: "inv s \<Longrightarrow> inv (on_access p g f s)"
  by (simp add: inv_def on_access_def tlb_coherent_upd_keep frames_coherent_upd_keep
      tables_ok_upd_pte)

lemma inv_clock_fields:
  "inv s \<Longrightarrow> length bits = length (use_bits s) \<Longrightarrow> h < length (frames s) \<or> h = clock_hand s \<Longrightarrow>
     inv (s\<lparr>use_bits := bits, clock_hand := h\<rparr>)"
  by (auto simp: inv_def)

lemma inv_evict_page:
  assumes i: "inv s" and v: "v \<in> set (resident_set (frames s))"
  shows "inv (evict_page v s)"
proof -
  obtain p g f where vv: "v = (p, g, f)" by (cases v) auto
  with v have f: "f < length (frames s)" and o: "frames s ! f = Some (p, g)"
    by (simp_all add: resident_set_iff)
  from i f o show ?thesis unfolding vv
    by (simp add: inv_def evict_page_def tlb_coherent_invalidate frames_coherent_evict
        queue_ok_evict[where ps = "procs s"] tables_ok_upd_pte)
qed

lemma inv_load_page:
  assumes i: "inv s" and e: "pte_at (procs s) p g = Some e" and nv: "\<not> valid e"
    and f: "f < length (frames s)" and o: "frames s ! f = None"
  shows "inv (load_page p g f s)"
  using i e nv f o
  by (simp add: inv_def load_page_def tlb_coherent_load[where e = e]
      frames_coherent_load[where e = e] queue_ok_load tables_ok_upd_pte)

lemma inv_tlb_refill:
  assumes i: "inv s" and e: "pte_at (procs s) p g = Some e" and v: "valid e" and f: "frame e = Some f"
  shows "inv (s\<lparr>tlb := tlb_insert (tlb s) p g f\<rparr>)"
  using assms by (simp add: inv_def tlb_coherent_insert[where e = e])

lemma obtain_frame_props:
  assumes i: "inv s" and ob: "obtain_frame s fut = Inr (f, steps, s1)"
  shows "inv s1 \<and> f < length (frames s1) \<and> frames s1 ! f = None \<and>
         length (frames s1) = length (frames s) \<and>
         (\<forall>p g e. pte_at (procs s) p g = Some e \<and> \<not> valid e \<longrightarrow>
            (\<exists>e'. pte_at (procs s1) p g = Some e' \<and> \<not> valid e'))"
proof (cases "allocate_free (frames s)")
  case (Some f0)
  with ob have "f = f0" "s1 = s" by (simp_all add: obtain_frame_def)
  with Some i show ?thesis using allocate_free_Some by auto
next
  case None
  with ob obtain v s' where sv: "select_victim s fut = Inr (v, s')"
    and f: "f = snd (snd v)" and s1: "s1 = evict_page v s'"
    by (auto simp: obtain_frame_def split: sum.splits)
  from select_victim_shape[OF sv] obtain bits h where
    v: "v \<in> set (resident_set (frames s))" and s': "s' = s\<lparr>use_bits := bits, clock_hand := h\<rparr>"
    and bl: "length bits = length (use_bits s)" and hh: "h < length (frames s) \<or> h = clock_hand s"
    by blast
  have i': "inv s'" unfolding s' using i bl hh by (rule inv_clock_fields)
  have v': "v \<in> set (resident_set (frames s'))" using v s' by simp
  have i1: "inv s1" unfolding s1 using i' v' by (rule inv_evict_page)
  obtain p g where vv: "v = (p, g, f)" using f by (cases v) auto
  with v have fl: "f < length (frames s)" by (simp add: resident_set_iff)
  have fr: "frames s1 = (frames s)[f := None]" by (simp add: s1 vv evict_page_def s')
  have pr: "procs s1 = upd_pte (\<lambda>e. e\<lparr>valid := False, frame := None\<rparr>) p g (procs s)"
    by (simp add: s1 vv evict_page_def s')
  have "\<exists>e'. pte_at (procs s1) p' g' = Some e' \<and> \<not> valid e'"
    if "pte_at (procs s) p' g' = Some e" "\<not> valid e" for p' g' e
    using that unfolding pr by (auto simp: pte_at_upd_pte)
  with i1 fl fr show ?thesis by auto
qed

lemma obtain_frame_succeeds:
  assumes i: "inv s"
  shows "\<exists>f steps s1. obtain_frame s fut = Inr (f, steps, s1)"
proof (cases "allocate_free (frames s)")
  case (Some f0)
  then show ?thesis by (simp add: obtain_frame_def)
next
  case None
  from select_victim_succeeds[OF i None] obtain v s' where "select_victim s fut = Inr (v, s')"
    by blast
  with None show ?thesis by (simp add: obtain_frame_def)
qed

lemma inv_handle_fault:
  assumes i: "inv s" and e: "pte_at (procs s) p g = Some e" and nv: "\<not> valid e"
    and hf: "handle_fault s fut p g va = Inr (r, s')"
  shows "inv s'"
proof -
  from hf obtain f steps s1 where ob: "obtain_frame s fut = Inr (f, steps, s1)"
    and s': "s' = record_access p va (count_fault (load_page p g f s1))"
    by (auto simp: handle_fault_def split: sum.splits)
  from obtain_frame_props[OF i ob] e nv obtain e' where
    i1: "inv s1" and f: "f < length (frames s1)" "frames s1 ! f = None"
    and e': "pte_at (procs s1) p g = Some e'" "\<not> valid e'"
    by blast
  have "inv (load_page p g f s1)" using i1 e' f by (rule inv_load_page)
  then show ?thesis unfolding s' by (rule inv_record_fault)
qed

lemma inv_translate_address:
  assumes i: "inv s" and t: "translate_address s fut p va = Inr (r, s')"
  shows "inv s'"
proof -
  from t obtain pr where pr: "map_of (procs s) p = Some pr"
    by (auto simp: translate_address_def split: option.splits)
  let ?g = "va div PAGE_SIZE"
  from t pr have rng: "\<not> pages_needed pr \<le> ?g"
    by (auto simp: translate_address_def Let_def split: if_splits)
  show ?thesis
  proof (cases "tlb_lookup (tlb s) p ?g")
    case (Some f)
    with t pr rng have "s' = record_access p va (on_access p ?g f (count_tlb_hit s))"
      by (simp add: translate_address_def Let_def)
    with i show ?thesis by (simp add: inv_record_access inv_on_access inv_count_tlb_hit)
  next
    case None
    with t pr rng obtain e where e: "pte_at (procs s) p ?g = Some e"
      by (auto simp: translate_address_def Let_def split: option.splits)
    show ?thesis
    proof (cases "valid e")
      case True
      with t pr rng None e obtain f where f: "frame e = Some f"
        and s': "s' = record_access p va
                   (on_access p ?g f ((count_tlb_miss s)\<lparr>tlb := tlb_insert (tlb s) p ?g f\<rparr>))"
        by (auto simp: translate_address_def Let_def split: option.splits)
      have "inv ((count_tlb_miss s)\<lparr>tlb := tlb_insert (tlb (count_tlb_miss s)) p ?g f\<rparr>)"
        using inv_count_tlb_miss[OF i] e True f
        by (intro inv_tlb_refill[where e = e]) (simp_all add: count_tlb_miss_def)
      then have "inv ((count_tlb_miss s)\<lparr>tlb := tlb_insert (tlb s) p ?g f\<rparr>)"
        by (simp add: count_tlb_miss_def)
      then show ?thesis unfolding s' by (intro inv_record_access inv_on_access)
    next
      case False
      with t pr rng None e have hf: "handle_fault (count_tlb_miss s) fut p ?g va = Inr (r, s')"
        by (simp add: translate_address_def Let_def)
      have e': "pte_at (procs (count_tlb_miss s)) p ?g = Some e"
        using e by (simp add: count_tlb_miss_def)
      show ?thesis using inv_count_tlb_miss[OF i] e' False hf by (rule inv_handle_fault)
    qed
  qed
qed

lemma fold_max_ge: "k \<in> set xs \<Longrightarrow> k \<le> fold max xs (a::nat)"
proof -
  assume "k \<in> set xs"
  then have "k \<le> Max (set (a # xs))" by (intro Max_ge) auto
  then show ?thesis by (simp only: Max.set_eq_fold)
qed

lemma next_pid_fresh: "map_of ps (next_pid ps) = None"
proof (cases "find (\<lambda>n. map_of ps n = None) [1..<length ps + 2]")
  case (Some n)
  then have "map_of ps n = None" by (auto simp: find_Some_iff)
  with Some show ?thesis by (simp add: next_pid_def)
next
  case None
  have "Suc (fold max (map fst ps) 0) \<notin> fst ` set ps"
  proof
    assume "Suc (fold max (map fst ps) 0) \<in> fst ` set ps"
    then have "Suc (fold max (map fst ps) 0) \<in> set (map fst ps)" by simp
    from fold_max_ge[OF this, of 0] show False by simp
  qed
  then have "map_of ps (Suc (fold max (map fst ps) 0)) = None"
    by (simp add: map_of_eq_None_iff)
  with None show ?thesis by (simp add: next_pid_def)
qed

lemma pte_at_append_fresh:
  "map_of ps p = None \<Longrightarrow>
   pte_at (ps @ [(p, pr)]) q g =
     (if q = p then (if g < length (page_table pr) then Some (page_table pr ! g) else None)
      else pte_at ps q g)"
  by (auto simp: pte_at_def map_add_def split: option.splits)

lemma inv_create_process:
  assumes i: "inv s" and c: "create_process s n = Inr (p, s')"
  shows "inv s'"
proof -
  let ?pr = "\<lparr>pages_needed = n, page_table = replicate n cold_pte\<rparr>"
  from c have p: "p = next_pid (procs s)" and s': "s' = s\<lparr>procs := procs s @ [(p, ?pr)]\<rparr>"
    by (auto simp: create_process_def Let_def split: if_splits)
  have fresh: "map_of (procs s) p = None" unfolding p by (rule next_pid_fresh)
  have keep: "pte_at (procs s @ [(p, ?pr)]) q g = Some e" if "pte_at (procs s) q g = Some e" for q g e
  proof -
    from that fresh have "q \<noteq> p" by (auto simp: pte_at_def)
    with that fresh show ?thesis by (simp add: pte_at_append_fresh)
  qed
  have t: "tlb_coherent (tlb s) (procs s @ [(p, ?pr)])"
    using i keep unfolding inv_def tlb_coherent_def by blast
  have f: "frames_coherent (frames s) (procs s @ [(p, ?pr)])"
    using i keep unfolding inv_def frames_coherent_def by blast
  have tb: "tables_ok (procs s @ [(p, ?pr)])"
    using i fresh unfolding inv_def tables_ok_def
    by (auto simp: map_add_def split: option.splits if_splits)
  from i t f tb show ?thesis unfolding s' by (simp add: inv_def)
qed

lemma pte_at_delete:
  "pte_at (AList.delete p ps) q g = (if q = p then None else pte_at ps q g)"
  by (simp add: pte_at_def delete_conv')

lemma release_frames_nth:
  "f < length fr \<Longrightarrow>
   release_frames p fr ! f = Some (q, g) \<longleftrightarrow> q \<noteq> p \<and> fr ! f = Some (q, g)"
  by (auto simp: release_frames_def split: option.splits)

lemma length_release_frames: "length (release_frames p fr) = length fr"
  by (simp add: release_frames_def)

lemma inv_terminate_process:
  assumes i: "inv s" and c: "terminate_process s p = Inr s'"
  shows "inv s'"
proof -
  from c have s': "s' = s\<lparr>procs := AList.delete p (procs s),
                 frames := release_frames p (frames s),
                 tlb := tlb_invalidate_process (tlb s) p,
                 fifo_queue := filter (\<lambda>v. fst v \<noteq> p) (fifo_queue s)\<rparr>"
    by (auto simp: terminate_process_def split: option.splits)
  have t: "tlb_coherent (tlb_invalidate_process (tlb s) p) (AList.delete p (procs s))"
    using i unfolding inv_def tlb_coherent_def tlb_invalidate_process_def
    by (auto simp: pte_at_delete)
  have f: "frames_coherent (release_frames p (frames s)) (AList.delete p (procs s))"
    using i unfolding inv_def frames_coherent_iff
    by (auto simp: pte_at_delete release_frames_nth length_release_frames)
  have q: "queue_ok (filter (\<lambda>v. fst v \<noteq> p) (fifo_queue s)) (release_frames p (frames s))"
    using i unfolding inv_def queue_ok_iff
    by (auto simp: release_frames_nth length_release_frames)
  have tb: "tables_ok (AList.delete p (procs s))"
    using i unfolding inv_def tables_ok_def by (auto simp: delete_conv' split: if_splits)
  from i t f q tb show ?thesis unfolding s' by (simp add: inv_def length_release_frames)
qed

lemma inv_set_algorithm: "inv s \<Longrightarrow> inv (set_algorithm s a)"
  by (simp add: inv_def set_algorithm_def)

lemma inv_reset: "inv (reset s)"
  by (simp add: reset_def NUM_FRAMES_def inv_init_state)

lemma reachable_inv: "reachable s \<Longrightarrow> inv s"
proof (induction rule: reachable.induct)
  case (fresh n) then show ?case by (rule inv_init_state)
next
  case (created s n p s') then show ?case using inv_create_process by blast
next
  case (terminated s p s') then show ?case using inv_terminate_process by blast
next
  case (switched s a) then show ?case by (simp add: inv_set_algorithm)
next
  case (translated s fut p va r s') then show ?case using inv_translate_address by blast
next
  case (was_reset s) show ?case by (rule inv_reset)
qed

section \<open>The claims\<close>

subsection \<open>Reachability of replayed states; TLB lookups\<close>

lemma reachable_access: "reachable s \<Longrightarrow> reachable (access fut s a)"
  by (auto simp: access_def split: sum.splits intro: reachable.translated)

lemma reachable_replay: "reachable s \<Longrightarrow> reachable (replay fut s xs)"
  by (induction xs arbitrary: s) (simp_all add: reachable_access)

lemma reachable_create_all: "reachable s \<Longrightarrow> reachable (create_all s ns)"
proof (induction ns arbitrary: s)
  case Nil then show ?case by simp
next
  case (Cons n ns)
  have "reachable (case create_process s n of Inl e \<Rightarrow> s | Inr (p, s') \<Rightarrow> s')"
    using Cons.prems by (auto split: sum.splits intro: reachable.created)
  then show ?case by (simp add: Cons.IH)
qed

lemma tlb_lookup_in_set: "tlb_lookup t p g = Some f \<Longrightarrow> ((p, g), f) \<in> set t"
  by (simp add: tlb_lookup_def map_of_SomeD)

lemma tlb_lookup_invalidate: "tlb_lookup (tlb_invalidate t p g) p g = None"
  by (simp add: tlb_lookup_def tlb_invalidate_def map_of_filter_key)

lemma tlb_lookup_invalidate_process: "tlb_lookup (tlb_invalidate_process t p) p g = None"
proof -
  have "(p, g) \<notin> fst ` set (tlb_invalidate_process t p)"
    by (auto simp: tlb_invalidate_process_def)
  then show ?thesis by (simp add: tlb_lookup_def map_of_eq_None_iff)
qed

lemma translate_address_tlb:
  assumes "translate_address s fut p va = Inr (r, s')"
  shows "tlb_lookup (tlb s') p (va div PAGE_SIZE) = Some (res_frame r)"
proof -
  from assms obtain pr where pr: "map_of (procs s) p = Some pr"
    by (auto simp: translate_address_def split: option.splits)
  let ?g = "va div PAGE_SIZE"
  from assms pr have rng: "\<not> pages_needed pr \<le> ?g"
    by (auto simp: translate_address_def Let_def split: if_splits)
  show ?thesis
  proof (cases "tlb_lookup (tlb s) p ?g")
    case (Some f)
    with assms pr rng show ?thesis
      by (auto simp: translate_address_def Let_def record_access_def on_access_def count_tlb_hit_def)
  next
    case None
    with assms pr rng obtain e where e: "pte_at (procs s) p ?g = Some e"
      by (auto simp: translate_address_def Let_def split: option.splits)
    show ?thesis
    proof (cases "valid e")
      case True
      with assms pr rng None e show ?thesis
        by (auto simp: translate_address_def Let_def record_access_def on_access_def
            count_tlb_miss_def tlb_lookup_insert split: option.splits)
    next
      case False
      with assms pr rng None e show ?thesis
        by (auto simp: translate_address_def Let_def handle_fault_def record_access_def
            count_fault_def load_page_def tlb_lookup_insert split: sum.splits)
    qed
  qed
qed

text \<open>
  C2. Between operations the TLB never holds a stale frame: in every reachable state each
  TLB entry \<open>(pid, page) \<rightarrow> frame\<close>, and so each successful lookup, has a valid page table
  entry whose frame is that frame. The entry is dealt with in the operation that changes
  the mapping: an eviction leaves no entry for the victim, a termination leaves none for
  the process, and after a translation (a fault resolved or not) the TLB maps the page to
  the frame the translation returned.
\<close>

theorem tlb_never_stale:
  assumes "reachable s"
  shows "(\<forall>k \<in> set (tlb s).
            \<exists>e. pte_at (procs s) (fst (fst k)) (snd (fst k)) = Some e \<and> valid e
                \<and> frame e = Some (snd k)) \<and>
         (\<forall>p g f. tlb_lookup (tlb s) p g = Some f \<longrightarrow>
            (\<exists>e. pte_at (procs s) p g = Some e \<and> valid e \<and> frame e = Some f)) \<and>
         (\<forall>p g f. tlb_lookup (tlb (evict_page (p, g, f) s)) p g = None) \<and>
         (\<forall>p s'. terminate_process s p = Inr s' \<longrightarrow> (\<forall>g. tlb_lookup (tlb s') p g = None)) \<and>
         (\<forall>fut p va r s'. translate_address s fut p va = Inr (r, s') \<longrightarrow>
            tlb_lookup (tlb s') p (va div PAGE_SIZE) = Some (res_frame r))"
proof -
  from assms have "inv s" by (rule reachable_inv)
  then have coh: "tlb_coherent (tlb s) (procs s)" by (simp add: inv_def)
  have a: "\<forall>k \<in> set (tlb s).
            \<exists>e. pte_at (procs s) (fst (fst k)) (snd (fst k)) = Some e \<and> valid e
                \<and> frame e = Some (snd k)"
    using coh by (simp add: tlb_coherent_def)
  have b: "\<forall>p g f. tlb_lookup (tlb s) p g = Some f \<longrightarrow>
            (\<exists>e. pte_at (procs s) p g = Some e \<and> valid e \<and> frame e = Some f)"
  proof (intro allI impI)
    fix p g f assume "tlb_lookup (tlb s) p g = Some f"
    then have "((p, g), f) \<in> set (tlb s)" by (rule tlb_lookup_in_set)
    with a show "\<exists>e. pte_at (procs s) p g = Some e \<and> valid e \<and> frame e = Some f" by fastforce
  qed
  have c: "\<forall>p g f. tlb_lookup (tlb (evict_page (p, g, f) s)) p g = None"
    by (simp add: evict_page_def tlb_lookup_invalidate)
  have d: "\<forall>p s'. terminate_process s p = Inr s' \<longrightarrow> (\<forall>g. tlb_lookup (tlb s') p g = None)"
    by (auto simp: terminate_process_def tlb_lookup_invalidate_process split: option.splits)
  have e: "\<forall>fut p va r s'. translate_address s fut p va = Inr (r, s') \<longrightarrow>
            tlb_lookup (tlb s') p (va div PAGE_SIZE) = Some (res_frame r)"
    using translate_address_tlb by blast
  from a b c d e show ?thesis by blast
qed

theorem tlb_never_stale_witness:
  "reachable (replay None (create_all (init_state NUM_FRAMES) [4]) [(1, 0)]) \<and>
   tlb (replay None (create_all (init_state NUM_FRAMES) [4]) [(1, 0)]) = [((1, 0), 0)] \<and>
   (\<exists>e. pte_at (procs (replay None (create_all (init_state NUM_FRAMES) [4]) [(1, 0)])) 1 0 = Some e
        \<and> valid e \<and> frame e = Some 0)"
proof -
  let ?s = "replay None (create_all (init_state NUM_FRAMES) [4]) [(1, 0)]"
  have r: "reachable ?s"
    by (intro reachable_replay reachable_create_all reachable.fresh) (simp add: NUM_FRAMES_def)
  have t: "tlb ?s = [((1, 0), 0)]" by code_simp
  from tlb_never_stale[OF r] t r show ?thesis by simp
qed

subsection \<open>A cold access faults, the next one hits\<close>

lemma obtain_frame_pages:
  assumes "obtain_frame s fut = Inr (f, steps, s1)"
  shows "map_option pages_needed (map_of (procs s1) p) = map_option pages_needed (map_of (procs s) p)"
proof (cases "allocate_free (frames s)")
  case (Some f0)
  with assms show ?thesis by (simp add: obtain_frame_def)
next
  case None
  with assms obtain v s' where sv: "select_victim s fut = Inr (v, s')" and s1: "s1 = evict_page v s'"
    by (auto simp: obtain_frame_def split: sum.splits)
  from select_victim_shape[OF sv] have "procs s' = procs s" by auto
  then show ?thesis unfolding s1
    by (cases v) (simp add: evict_page_def map_of_upd_pte_pages)
qed

lemma obtain_frame_free_pool:
  assumes "obtain_frame s fut = Inr (f, steps, s1)" and "\<not> is_full (frames s)"
  shows "frames s ! f = None \<and> s1 = s"
  using assms allocate_free_Some
  by (auto simp: obtain_frame_def is_full_def split: option.splits)

text \<open>
  C1. In every reachable state, for every live process and every in-range virtual address
  whose page table entry is invalid: translating the address succeeds and reports a page
  fault and no TLB hit; the frame it reports was free when the page was loaded into it (it
  is the frame \<open>obtain_frame\<close> hands out free, one that was already free before the call
  whenever the pool was not full) and now holds the page; and translating the same address
  again at once succeeds, reports no page fault, a TLB hit, and the same physical address.
\<close>

theorem cold_access_faults_then_hits:
  assumes r: "reachable s" and pr: "map_of (procs s) p = Some pr"
    and rng: "va div PAGE_SIZE < pages_needed pr"
    and e: "pte_at (procs s) p (va div PAGE_SIZE) = Some e" and nv: "\<not> valid e"
  shows "\<exists>r1 s1 r2 s2.
           translate_address s fut p va = Inr (r1, s1) \<and> page_fault r1 \<and> \<not> tlb_hit r1 \<and>
           (\<exists>steps s0. obtain_frame (count_tlb_miss s) fut = Inr (res_frame r1, steps, s0) \<and>
              res_frame r1 < length (frames s0) \<and> frames s0 ! res_frame r1 = None) \<and>
           (\<not> is_full (frames s) \<longrightarrow> frames s ! res_frame r1 = None) \<and>
           res_frame r1 < length (frames s) \<and>
           frames s1 ! res_frame r1 = Some (p, va div PAGE_SIZE) \<and>
           translate_address s1 fut' p va = Inr (r2, s2) \<and> \<not> page_fault r2 \<and> tlb_hit r2 \<and>
           physical_address r2 = physical_address r1"
proof -
  let ?g = "va div PAGE_SIZE"
  let ?s = "count_tlb_miss s"
  from r have i: "inv s" by (rule reachable_inv)
  then have coh: "tlb_coherent (tlb s) (procs s)" by (simp add: inv_def)
  have miss: "tlb_lookup (tlb s) p ?g = None"
  proof (cases "tlb_lookup (tlb s) p ?g")
    case None then show ?thesis .
  next
    case (Some f)
    then have "((p, ?g), f) \<in> set (tlb s)" by (rule tlb_lookup_in_set)
    with coh obtain e' where "pte_at (procs s) p ?g = Some e'" "valid e'"
      unfolding tlb_coherent_def by fastforce
    with e nv show ?thesis by simp
  qed
  have i': "inv ?s" using i by (rule inv_count_tlb_miss)
  from obtain_frame_succeeds[OF i'] obtain f steps s0 where
    ob: "obtain_frame ?s fut = Inr (f, steps, s0)" by blast
  have e': "pte_at (procs ?s) p ?g = Some e" using e by (simp add: count_tlb_miss_def)
  from obtain_frame_props[OF i' ob] have
    f: "f < length (frames s0)" "frames s0 ! f = None" and len: "length (frames s0) = length (frames s)"
    by (simp_all add: count_tlb_miss_def)
  define r1 where "r1 = \<lparr>physical_address = f * PAGE_SIZE + va mod PAGE_SIZE, res_frame = f,
                page_fault = True, tlb_hit = False,
                translation_steps = [TlbMiss, PageFault] @ steps @ [PageFaultServiced]\<rparr>"
  define s1 where "s1 = record_access p va (count_fault (load_page p ?g f s0))"
  have t1: "translate_address s fut p va = Inr (r1, s1)"
    using pr rng miss e nv ob
    by (simp add: translate_address_def Let_def handle_fault_def r1_def s1_def)
  have free: "\<not> is_full (frames s) \<longrightarrow> frames s ! f = None"
    using obtain_frame_free_pool[OF ob] by (simp add: count_tlb_miss_def)
  have fr1: "frames s1 ! f = Some (p, ?g)"
    using f by (simp add: s1_def record_access_def count_fault_def load_page_def)
  have "map_option pages_needed (map_of (procs s1) p) = map_option pages_needed (map_of (procs s0) p)"
    by (simp add: s1_def record_access_def count_fault_def load_page_def map_of_upd_pte_pages)
  also have "\<dots> = map_option pages_needed (map_of (procs ?s) p)"
    using ob by (rule obtain_frame_pages)
  also have "\<dots> = Some (pages_needed pr)" using pr by (simp add: count_tlb_miss_def)
  finally obtain pr1 where pr1: "map_of (procs s1) p = Some pr1" "pages_needed pr1 = pages_needed pr"
    by auto
  have hit: "tlb_lookup (tlb s1) p ?g = Some f"
    by (simp add: s1_def record_access_def count_fault_def load_page_def tlb_lookup_insert)
  define r2 where "r2 = \<lparr>physical_address = f * PAGE_SIZE + va mod PAGE_SIZE, res_frame = f,
                        page_fault = False, tlb_hit = True, translation_steps = [TlbHit]\<rparr>"
  define s2 where "s2 = record_access p va (on_access p ?g f (count_tlb_hit s1))"
  have t2: "translate_address s1 fut' p va = Inr (r2, s2)"
    using pr1 rng hit by (simp add: translate_address_def Let_def r2_def s2_def)
  have "translate_address s fut p va = Inr (r1, s1) \<and> page_fault r1 \<and> \<not> tlb_hit r1 \<and>
           (\<exists>steps s0. obtain_frame (count_tlb_miss s) fut = Inr (res_frame r1, steps, s0) \<and>
              res_frame r1 < length (frames s0) \<and> frames s0 ! res_frame r1 = None) \<and>
           (\<not> is_full (frames s) \<longrightarrow> frames s ! res_frame r1 = None) \<and>
           res_frame r1 < length (frames s) \<and>
           frames s1 ! res_frame r1 = Some (p, va div PAGE_SIZE) \<and>
           translate_address s1 fut' p va = Inr (r2, s2) \<and> \<not> page_fault r2 \<and> tlb_hit r2 \<and>
           physical_address r2 = physical_address r1"
    using t1 t2 ob f len free fr1 by (simp add: r1_def r2_def)
  then show ?thesis by blast
qed

theorem cold_access_faults_then_hits_witness:
  "reachable (replay None (create_all (init_state 2) [4]) [(1, 0), (1, 4096)]) \<and>
   is_full (frames (replay None (create_all (init_state 2) [4]) [(1, 0), (1, 4096)])) \<and>
   pte_at (procs (replay None (create_all (init_state 2) [4]) [(1, 0), (1, 4096)])) 1 2
     = Some cold_pte \<and>
   (\<exists>r1 s1 r2 s2.
      translate_address (replay None (create_all (init_state 2) [4]) [(1, 0), (1, 4096)])
        None 1 8192 = Inr (r1, s1) \<and>
      page_fault r1 \<and> \<not> tlb_hit r1 \<and> frames s1 ! res_frame r1 = Some (1, 2) \<and>
      translate_address s1 None 1 8192 = Inr (r2, s2) \<and> \<not> page_fault r2 \<and> tlb_hit r2 \<and>
      physical_address r2 = physical_address r1)"
proof -
  let ?s = "replay None (create_all (init_state 2) [4]) [(1, 0), (1, 4096)]"
  let ?pr = "\<lparr>pages_needed = 4,
              page_table =
                [\<lparr>frame = Some 0, valid = True, dirty = False,
                    referenced = True, load_order = 0, last_used = 0\<rparr>,
                 \<lparr>frame = Some 1, valid = True, dirty = False,
                    referenced = True, load_order = 1, last_used = 1\<rparr>,
                 cold_pte, cold_pte]\<rparr>"
  have r: "reachable ?s"
    by (intro reachable_replay reachable_create_all reachable.fresh) simp
  have full: "is_full (frames ?s)" by code_simp
  have pr: "map_of (procs ?s) 1 = Some ?pr" by code_simp
  have rng: "8192 div PAGE_SIZE < pages_needed ?pr" by (simp add: PAGE_SIZE_def)
  have g: "8192 div PAGE_SIZE = 2" by (simp add: PAGE_SIZE_def)
  have e: "pte_at (procs ?s) 1 2 = Some cold_pte" by code_simp
  then have e': "pte_at (procs ?s) 1 (8192 div PAGE_SIZE) = Some cold_pte" by (simp only: g)
  have nv: "\<not> valid cold_pte" by (simp add: cold_pte_def)
  from cold_access_faults_then_hits[OF r pr rng e' nv, of None None] g r full e
  show ?thesis by auto
qed

subsection \<open>FIFO\<close>

lemma next_pid_Nil: "next_pid [] = 1"
  by code_simp









subsection \<open>The hit ratio\<close>

lemma hit_ratio_range:
  assumes "page_faults st \<le> memory_accesses st"
  shows "0 \<le> hit_ratio st \<and> hit_ratio st \<le> 1"
proof (cases "memory_accesses st = 0")
  case True
  then show ?thesis by (simp add: hit_ratio_def)
next
  case False
  then have pos: "(0::rat) < of_nat (memory_accesses st)" by simp
  have le: "(of_nat (page_faults st) :: rat) \<le> of_nat (memory_accesses st)"
    using assms by simp
  have "(of_nat (page_faults st) :: rat) / of_nat (memory_accesses st) \<le> 1"
    using pos le by (simp add: divide_le_eq_1)
  moreover have "(0::rat) \<le> of_nat (page_faults st) / of_nat (memory_accesses st)"
    by simp
  ultimately show ?thesis using False by (simp add: hit_ratio_def)
qed

lemma reachable_api: "reachable s \<Longrightarrow> reachable (snd (api rj s req))"
proof (cases req)
  case PostReset
  assume "reachable s"
  then show ?thesis using PostReset by (simp add: ok_state_def reachable.was_reset)
next
  case (PostCreateProcess x)
  assume r: "reachable s"
  show ?thesis
  proof (cases x)
    case (Num n)
    with r PostCreateProcess show ?thesis
      by (auto simp: failure_def ok_state_def split: sum.splits intro: reachable.created)
  qed (use r PostCreateProcess in \<open>simp_all add: failure_def\<close>)
next
  case (PostSetAlgorithm name)
  assume "reachable s"
  then show ?thesis using PostSetAlgorithm
    by (auto simp: failure_def ok_state_def split: option.splits intro: reachable.switched)
next
  case (PostTranslateAddress x y)
  assume r: "reachable s"
  show ?thesis
  proof (cases x)
    case (Num p)
    show ?thesis
    proof (cases y)
      case (Num va)
      with r PostTranslateAddress \<open>x = Num p\<close> show ?thesis
        by (auto simp: failure_def split: sum.splits intro: reachable.translated)
    qed (use r PostTranslateAddress \<open>x = Num p\<close> in \<open>simp_all add: failure_def\<close>)
  qed (use r PostTranslateAddress in \<open>simp_all add: failure_def\<close>)
qed (simp_all)

lemma reachable_replay_requests:
  "reachable s \<Longrightarrow> reachable (snd (replay_requests (api rj) sequence s))"
proof (induction sequence arbitrary: s)
  case Nil then show ?case by simp
next
  case (Cons x xs)
  obtain pid addr where x: "x = (pid, addr)" by (cases x)
  let ?req = "PostTranslateAddress (parseInt_number pid) (parseInt_number addr)"
  have r1: "reachable (snd (api rj s ?req))" using Cons.prems by (rule reachable_api)
  show ?case
  proof (cases "api rj s ?req")
    case (Pair res s1)
    with r1 have "reachable s1" by simp
    with Pair x Cons.IH[of s1] show ?thesis by (cases res) simp_all
  qed
qed

lemma create_process_fresh:
  "0 < n \<Longrightarrow> \<exists>s'. create_process (init_state k) n = Inr (1, s')"
  by (simp add: create_process_def next_pid_Nil init_state_def)

text \<open>A cell against the modelled endpoints: whatever the server's state was, the replay
  starts from the fresh 16-frame instance with one process of 8 pages.\<close>

lemma try_cell_api:
  "try_cell (api rj) elapsed algorithm sequence s =
     (case api rj (create_all (init_state NUM_FRAMES) [8]) (PostSetAlgorithm algorithm) of
        (Inl msg, b3) \<Rightarrow> (Inl msg, b3)
      | (Inr r3, b3) \<Rightarrow>
          (case replay_requests (api rj) sequence b3 of
             (Inl msg, b4) \<Rightarrow> (Inl msg, b4)
           | (Inr u, b4) \<Rightarrow>
               (Inr \<lparr>cell_page_faults = page_faults (stats b4),
                     cell_hit_ratio = hit_ratio (stats b4),
                     cell_execution_time = elapsed, cell_error = None\<rparr>, b4)))"
proof -
  obtain s' where c: "create_process (init_state NUM_FRAMES) 8 = Inr (1, s')"
    using create_process_fresh[of 8 NUM_FRAMES] by auto
  show ?thesis
    unfolding try_cell_def
    by (simp add: ok_state_def reset_def c no_data_def memory_state_def
        split: prod.splits sum.splits)
qed

lemma try_cell_reads_reachable:
  assumes "try_cell (api rj) elapsed algorithm sequence s = (Inr c, s')"
  shows "reachable s' \<and> cell_hit_ratio c = hit_ratio (stats s') \<and>
         cell_page_faults c = page_faults (stats s') \<and> cell_error c = None"
proof -
  let ?s2 = "create_all (init_state NUM_FRAMES) [8]"
  have r2: "reachable ?s2"
    by (intro reachable_create_all reachable.fresh) (simp add: NUM_FRAMES_def)
  obtain x3 b3 where a3: "api rj ?s2 (PostSetAlgorithm algorithm) = (x3, b3)" by fastforce
  have r3: "reachable b3" using reachable_api[OF r2, of rj "PostSetAlgorithm algorithm"] a3 by simp
  obtain x4 b4 where a4: "replay_requests (api rj) sequence b3 = (x4, b4)" by fastforce
  have r4: "reachable b4" using reachable_replay_requests[OF r3, of rj sequence] a4 by simp
  from assms a3 a4 r4 show ?thesis
    unfolding try_cell_api by (auto split: sum.splits)
qed

lemma run_cell_percentage:
  "0 \<le> cell_hit_ratio (fst (run_cell (api rj) elapsed algorithm sequence s)) * 100 \<and>
   cell_hit_ratio (fst (run_cell (api rj) elapsed algorithm sequence s)) * 100 \<le> 100"
proof (cases "try_cell (api rj) elapsed algorithm sequence s")
  case (Pair x s')
  show ?thesis
  proof (cases x)
    case (Inl msg)
    with Pair show ?thesis by (simp add: run_cell_def)
  next
    case (Inr c)
    with Pair have "reachable s'" "cell_hit_ratio c = hit_ratio (stats s')"
      using try_cell_reads_reachable by blast+
    moreover from \<open>reachable s'\<close> have "page_faults (stats s') \<le> memory_accesses (stats s')"
      using reachable_inv by (auto simp: inv_def)
    ultimately have "0 \<le> cell_hit_ratio c \<and> cell_hit_ratio c \<le> 1"
      using hit_ratio_range by simp
    with Pair Inr show ?thesis by (simp add: run_cell_def)
  qed
qed

text \<open>
  C5. In every reachable state the hit ratio is \<open>1 - page_faults / memory_accesses\<close>, and 1
  when there were no accesses; it lies between 0 and 1; and the percentages the front end
  derives from it lie between 0 and 100: the hit ratio times 100 that the statistics panel
  shows, the algorithm efficiency \<^verbatim>\<open>calculateSystemResources\<close> computes from the snapshot,
  and the hit ratio times 100 of every benchmark cell (0 for a failed cell).
\<close>

theorem hit_ratio_in_unit_interval:
  assumes "reachable s"
  shows "hit_ratio (stats s) =
           (if memory_accesses (stats s) = 0 then 1
            else 1 - of_nat (page_faults (stats s)) / of_nat (memory_accesses (stats s))) \<and>
         (memory_accesses (stats s) = 0 \<longrightarrow> hit_ratio (stats s) = 1) \<and>
         0 \<le> hit_ratio (stats s) \<and> hit_ratio (stats s) \<le> 1 \<and>
         (\<exists>st. mv_stats (memory_state s) = Some st \<and> sv_hit_ratio st = hit_ratio (stats s) \<and>
               0 \<le> sv_hit_ratio st * 100 \<and> sv_hit_ratio st * 100 \<le> 100) \<and>
         (\<forall>fs. memoryState fs = Some (memory_state s) \<longrightarrow>
            0 \<le> algorithmEfficiency (systemResources (calculateSystemResources fs)) \<and>
            algorithmEfficiency (systemResources (calculateSystemResources fs)) \<le> 100) \<and>
         (\<forall>rj elapsed algorithm sequence.
            0 \<le> cell_hit_ratio (fst (run_cell (api rj) elapsed algorithm sequence s)) * 100 \<and>
            cell_hit_ratio (fst (run_cell (api rj) elapsed algorithm sequence s)) * 100 \<le> 100)"
proof -
  from assms have "page_faults (stats s) \<le> memory_accesses (stats s)"
    using reachable_inv by (auto simp: inv_def)
  then have rng: "0 \<le> hit_ratio (stats s) \<and> hit_ratio (stats s) \<le> 1" by (rule hit_ratio_range)
  have eff: "0 \<le> algorithmEfficiency (systemResources (calculateSystemResources fs)) \<and>
            algorithmEfficiency (systemResources (calculateSystemResources fs)) \<le> 100"
    if "memoryState fs = Some (memory_state s)" for fs
    using that rng by (simp add: calculateSystemResources_def memory_state_def Let_def)
  show ?thesis
    using rng eff run_cell_percentage
    by (simp add: hit_ratio_def memory_state_def)
qed

theorem hit_ratio_in_unit_interval_witness:
  "reachable (replay None (create_all (init_state NUM_FRAMES) [4]) [(1, 0), (1, 0), (1, 0), (1, 4096)]) \<and>
   hit_ratio (stats (replay None (create_all (init_state NUM_FRAMES) [4])
                      [(1, 0), (1, 0), (1, 0), (1, 4096)])) = 1 / 2 \<and>
   algorithmEfficiency (systemResources (calculateSystemResources
      \<lparr>memoryState = Some (memory_state (replay None (create_all (init_state NUM_FRAMES) [4])
                      [(1, 0), (1, 0), (1, 0), (1, 4096)])),
       currentAlgorithm = ''FIFO'', selectedProcess = [], virtualAddress = [],
       translationResult = None, isRunning = False, demoResults = [],
       connectionStatus = ''connected'', error = None, algorithmComparison = None,
       report = None, workingSets = None, tlbState = None, showComparison = False,
       showReport = False, showTlb = False, showWorkingSets = False, startTime = 0,
       lastAccessTime = None, showRealTimeMonitor = False, benchmarkResults = None,
       showBenchmark = False, isBenchmarkRunning = False,
       systemResources = \<lparr>frameUtilization = 0, tlbUtilization = 0, algorithmEfficiency = 0\<rparr>,
       showSystemResources = False, demoIntervalRef = None\<rparr>)) \<le> 100"
proof -
  let ?s = "replay None (create_all (init_state NUM_FRAMES) [4]) [(1, 0), (1, 0), (1, 0), (1, 4096)]"
  have r: "reachable ?s"
    by (intro reachable_replay reachable_create_all reachable.fresh) (simp add: NUM_FRAMES_def)
  have st: "stats ?s = \<lparr>memory_accesses = 4, page_faults = 2, tlb_hits = 2, tlb_misses = 2\<rparr>"
    by code_simp
  have h: "hit_ratio (stats ?s) = 1 / 2" unfolding st by (simp add: hit_ratio_def)
  from hit_ratio_in_unit_interval[OF r] r h show ?thesis by simp
qed

subsection \<open>Reset\<close>

text \<open>
  C6. \<open>reset()\<close> returns the fresh empty state whatever the state was: no processes, every
  frame free, an empty TLB, all counters zero, an empty history and FIFO as the policy; the
  snapshots \<open>memory_state()\<close> and \<open>tlb_state()\<close> taken right after it show zero processes,
  zero page faults, zero memory accesses and an empty TLB. The front end mirrors it: when
  it is connected and the reset request succeeds (against any back end), \<^verbatim>\<open>resetSimulator\<close>
  stores the returned snapshot, clears every cached result (translation result, demo
  results, algorithm comparison, report, working sets, TLB state, benchmark results) and
  shows FIFO as the current algorithm; against the modelled endpoints the reset always
  succeeds and the stored snapshot is the fresh one.
\<close>

theorem reset_clears_everything:
  "reset s = init_state NUM_FRAMES \<and>
   procs (reset s) = [] \<and> tlb (reset s) = [] \<and> history (reset s) = [] \<and>
   frames (reset s) = replicate NUM_FRAMES None \<and> fifo_queue (reset s) = [] \<and>
   stats (reset s) = \<lparr>memory_accesses = 0, page_faults = 0, tlb_hits = 0, tlb_misses = 0\<rparr> \<and>
   current_algorithm (reset s) = FIFO \<and>
   processes (memory_state (reset s)) = [] \<and>
   mv_stats (memory_state (reset s)) =
     Some \<lparr>sv_memory_accesses = 0, sv_page_faults = 0, sv_hit_ratio = 1\<rparr> \<and>
   mv_current_algorithm (memory_state (reset s)) = ''FIFO'' \<and>
   tv_tlb (tlb_state (reset s)) = Some [] \<and>
   (\<forall>be b r b' now fs fs'.
      connectionStatus fs = ''connected'' \<and> be b PostReset = (Inr r, b') \<and> resp_success r \<and>
      fs' = fst (resetSimulator be now fs b) \<longrightarrow>
        memoryState fs' = resp_memory_state r \<and> currentAlgorithm fs' = ''FIFO'' \<and>
        translationResult fs' = None \<and> demoResults fs' = [] \<and>
        algorithmComparison fs' = None \<and> report fs' = None \<and> workingSets fs' = None \<and>
        tlbState fs' = None \<and> benchmarkResults fs' = None \<and>
        selectedProcess fs' = [] \<and> virtualAddress fs' = [] \<and> lastAccessTime fs' = None \<and>
        error fs' = None \<and> \<not> isRunning fs' \<and> demoIntervalRef fs' = None \<and>
        \<not> showComparison fs' \<and> \<not> showReport fs' \<and> \<not> showTlb fs' \<and> \<not> showWorkingSets fs' \<and>
        \<not> showRealTimeMonitor fs' \<and> \<not> showBenchmark fs' \<and> \<not> showSystemResources fs') \<and>
   (\<forall>rj now fs.
      connectionStatus fs = ''connected'' \<longrightarrow>
        snd (resetSimulator (api rj) now fs s) = init_state NUM_FRAMES \<and>
        memoryState (fst (resetSimulator (api rj) now fs s))
          = Some (memory_state (init_state NUM_FRAMES)) \<and>
        currentAlgorithm (fst (resetSimulator (api rj) now fs s)) = ''FIFO'')"
proof -
  have a: "reset s = init_state NUM_FRAMES" by (simp add: reset_def)
  have b: "procs (reset s) = [] \<and> tlb (reset s) = [] \<and> history (reset s) = [] \<and>
   frames (reset s) = replicate NUM_FRAMES None \<and> fifo_queue (reset s) = [] \<and>
   stats (reset s) = \<lparr>memory_accesses = 0, page_faults = 0, tlb_hits = 0, tlb_misses = 0\<rparr> \<and>
   current_algorithm (reset s) = FIFO"
    by (simp add: reset_def init_state_def)
  have c: "processes (memory_state (reset s)) = [] \<and>
   mv_stats (memory_state (reset s)) =
     Some \<lparr>sv_memory_accesses = 0, sv_page_faults = 0, sv_hit_ratio = 1\<rparr> \<and>
   mv_current_algorithm (memory_state (reset s)) = ''FIFO'' \<and>
   tv_tlb (tlb_state (reset s)) = Some []"
    by (simp add: reset_def init_state_def memory_state_def tlb_state_def hit_ratio_def)
  have d: "\<forall>be b r b' now fs fs'.
      connectionStatus fs = ''connected'' \<and> be b PostReset = (Inr r, b') \<and> resp_success r \<and>
      fs' = fst (resetSimulator be now fs b) \<longrightarrow>
        memoryState fs' = resp_memory_state r \<and> currentAlgorithm fs' = ''FIFO'' \<and>
        translationResult fs' = None \<and> demoResults fs' = [] \<and>
        algorithmComparison fs' = None \<and> report fs' = None \<and> workingSets fs' = None \<and>
        tlbState fs' = None \<and> benchmarkResults fs' = None \<and>
        selectedProcess fs' = [] \<and> virtualAddress fs' = [] \<and> lastAccessTime fs' = None \<and>
        error fs' = None \<and> \<not> isRunning fs' \<and> demoIntervalRef fs' = None \<and>
        \<not> showComparison fs' \<and> \<not> showReport fs' \<and> \<not> showTlb fs' \<and> \<not> showWorkingSets fs' \<and>
        \<not> showRealTimeMonitor fs' \<and> \<not> showBenchmark fs' \<and> \<not> showSystemResources fs'"
    by (simp add: resetSimulator_def)
  have e: "\<forall>rj now fs.
      connectionStatus fs = ''connected'' \<longrightarrow>
        snd (resetSimulator (api rj) now fs s) = init_state NUM_FRAMES \<and>
        memoryState (fst (resetSimulator (api rj) now fs s))
          = Some (memory_state (init_state NUM_FRAMES)) \<and>
        currentAlgorithm (fst (resetSimulator (api rj) now fs s)) = ''FIFO''"
    by (simp add: resetSimulator_def ok_state_def reset_def no_data_def)
  from a b c d e show ?thesis by blast
qed


theorem reset_clears_everything_witness:
  "connectionStatus ((initial_app_state 0)\<lparr>connectionStatus := ''connected'',
      currentAlgorithm := ''LRU'', translationResult := Some ''t'', report := Some ''r'',
      benchmarkResults := Some [], showBenchmark := True\<rparr>) = ''connected'' \<and>
   procs (replay None (create_all (init_state NUM_FRAMES) [4]) [(1, 0)]) \<noteq> [] \<and>
   procs (reset (replay None (create_all (init_state NUM_FRAMES) [4]) [(1, 0)])) = [] \<and>
   page_faults (stats (reset (replay None (create_all (init_state NUM_FRAMES) [4]) [(1, 0)]))) = 0 \<and>
   currentAlgorithm (fst (resetSimulator (api False) 7
      ((initial_app_state 0)\<lparr>connectionStatus := ''connected'',
         currentAlgorithm := ''LRU'', translationResult := Some ''t'', report := Some ''r'',
         benchmarkResults := Some [], showBenchmark := True\<rparr>)
      (replay None (create_all (init_state NUM_FRAMES) [4]) [(1, 0)]))) = ''FIFO'' \<and>
   snd (resetSimulator (api False) 7
      ((initial_app_state 0)\<lparr>connectionStatus := ''connected'',
         currentAlgorithm := ''LRU'', translationResult := Some ''t'', report := Some ''r'',
         benchmarkResults := Some [], showBenchmark := True\<rparr>)
      (replay None (create_all (init_state NUM_FRAMES) [4]) [(1, 0)])) = init_state NUM_FRAMES"
proof -
  define S where "S = replay None (create_all (init_state NUM_FRAMES) [4]) [(1, 0)]"
  define F where "F = (initial_app_state 0)\<lparr>connectionStatus := ''connected'',
      currentAlgorithm := ''LRU'', translationResult := Some ''t'', report := Some ''r'',
      benchmarkResults := Some [], showBenchmark := True\<rparr>"
  have c: "connectionStatus F = ''connected''" by (simp add: F_def)
  have p: "procs S \<noteq> []" unfolding S_def by code_simp
  note T = reset_clears_everything[of S]
  from T have 1: "procs (reset S) = []" by (elim conjE) assumption
  from T have "stats (reset S) =
      \<lparr>memory_accesses = 0, page_faults = 0, tlb_hits = 0, tlb_misses = 0\<rparr>"
    by (elim conjE) assumption
  then have 2: "page_faults (stats (reset S)) = 0" by simp
  from T have e: "\<forall>rj now fs.
      connectionStatus fs = ''connected'' \<longrightarrow>
        snd (resetSimulator (api rj) now fs S) = init_state NUM_FRAMES \<and>
        memoryState (fst (resetSimulator (api rj) now fs S))
          = Some (memory_state (init_state NUM_FRAMES)) \<and>
        currentAlgorithm (fst (resetSimulator (api rj) now fs S)) = ''FIFO''"
    by (elim conjE) assumption
  from e[rule_format, OF c, of False 7]
  have 3: "currentAlgorithm (fst (resetSimulator (api False) 7 F S)) = ''FIFO''"
    and 4: "snd (resetSimulator (api False) 7 F S) = init_state NUM_FRAMES"
    by simp_all
  show ?thesis
    using c p 1 2 3 4 unfolding S_def F_def by (intro conjI)
qed

subsection \<open>The benchmark matrix\<close>

lemma run_algorithms_keys: "map fst (fst (run_algorithms be elapsed sequence algs b)) = algs"
proof (induction algs arbitrary: b)
  case Nil then show ?case by simp
next
  case (Cons a algs)
  obtain c b1 where c: "run_cell be (elapsed a) a sequence b = (c, b1)" by fastforce
  obtain cs b2 where r: "run_algorithms be elapsed sequence algs b1 = (cs, b2)" by fastforce
  from Cons.IH[of b1] r have "map fst cs = algs" by simp
  with c r show ?case by simp
qed

lemma run_patterns_keys: "map fst (fst (run_patterns be elapsed pats b)) = map fst pats"
proof (induction pats arbitrary: b)
  case Nil then show ?case by simp
next
  case (Cons x xs)
  obtain p sequence where x: "x = (p, sequence)" by (cases x)
  obtain cs b1 where a: "run_algorithms be (elapsed p) sequence algorithms b = (cs, b1)" by fastforce
  obtain rs b2 where r: "run_patterns be elapsed xs b1 = (rs, b2)" by fastforce
  from Cons.IH[of b1] r have "map fst rs = map fst xs" by simp
  with x a r show ?case by simp
qed

lemma run_patterns_cells:
  "(pattern, cells) \<in> set (fst (run_patterns be elapsed pats b)) \<Longrightarrow> map fst cells = algorithms"
proof (induction pats arbitrary: b)
  case Nil then show ?case by simp
next
  case (Cons x xs)
  obtain p sequence where x: "x = (p, sequence)" by (cases x)
  obtain cs b1 where a: "run_algorithms be (elapsed p) sequence algorithms b = (cs, b1)" by fastforce
  obtain rs b2 where r: "run_patterns be elapsed xs b1 = (rs, b2)" by fastforce
  from Cons.prems x a r have "(pattern, cells) = (p, cs) \<or> (pattern, cells) \<in> set rs" by simp
  then show ?case
  proof
    assume "(pattern, cells) = (p, cs)"
    then show ?thesis using run_algorithms_keys[of be "elapsed p" sequence algorithms b] a by simp
  next
    assume "(pattern, cells) \<in> set rs"
    then show ?thesis using Cons.IH[of b1] r by simp
  qed
qed

lemma replay_requests_append:
  "replay_requests be (pre @ post) b =
     (case replay_requests be pre b of
        (Inl msg, b') \<Rightarrow> (Inl msg, b')
      | (Inr u, b') \<Rightarrow> replay_requests be post b')"
  by (induction pre arbitrary: b) (auto split: prod.splits sum.splits)

lemma rejecting_cell:
  assumes "sequence \<noteq> []"
  shows "run_cell rejecting_recorder elapsed algorithm sequence seen =
     (\<lparr>cell_page_faults = 0, cell_hit_ratio = 0, cell_execution_time = 0,
       cell_error = Some ''rejected''\<rparr>,
      seen @ [PostReset, PostCreateProcess (Num 8), PostSetAlgorithm algorithm,
              PostTranslateAddress (parseInt_number (fst (hd sequence)))
                (parseInt_number (snd (hd sequence)))])"
proof -
  from assms obtain pid addr rest where s: "sequence = (pid, addr) # rest"
    by (cases sequence) auto
  show ?thesis
    unfolding s by (simp add: run_cell_def try_cell_def rejecting_recorder_def)
qed

lemma rejecting_algorithms:
  assumes "sequence \<noteq> []"
  shows "run_algorithms rejecting_recorder elapsed sequence algs seen =
     (map (\<lambda>a. (a, \<lparr>cell_page_faults = 0, cell_hit_ratio = 0, cell_execution_time = 0,
                     cell_error = Some ''rejected''\<rparr>)) algs,
      seen @ concat (map (\<lambda>a. [PostReset, PostCreateProcess (Num 8), PostSetAlgorithm a,
              PostTranslateAddress (parseInt_number (fst (hd sequence)))
                (parseInt_number (snd (hd sequence)))]) algs))"
  by (induction algs arbitrary: seen) (simp_all add: rejecting_cell[OF assms])

lemma rejecting_patterns:
  assumes "\<forall>ps \<in> set pats. snd ps \<noteq> []"
  shows "run_patterns rejecting_recorder elapsed pats seen =
     (map (\<lambda>ps. (fst ps, map (\<lambda>a. (a, \<lparr>cell_page_faults = 0, cell_hit_ratio = 0,
                     cell_execution_time = 0, cell_error = Some ''rejected''\<rparr>)) algorithms)) pats,
      seen @ concat (map (\<lambda>ps. concat (map (\<lambda>a. [PostReset, PostCreateProcess (Num 8),
              PostSetAlgorithm a,
              PostTranslateAddress (parseInt_number (fst (hd (snd ps))))
                (parseInt_number (snd (hd (snd ps))))]) algorithms)) pats))"
  using assms
proof (induction pats arbitrary: seen)
  case Nil then show ?case by simp
next
  case (Cons x xs)
  obtain p sequence where x: "x = (p, sequence)" by (cases x)
  with Cons.prems have ne: "sequence \<noteq> []" by simp
  from Cons.prems have rest: "\<forall>ps \<in> set xs. snd ps \<noteq> []" by simp
  show ?case
    unfolding x by (simp add: rejecting_algorithms[OF ne] Cons.IH[OF rest])
qed

lemma benchmark_sequences_nonempty: "\<forall>ps \<in> set (benchmarkSequences rnd). snd ps \<noteq> []"
  by (simp add: benchmarkSequences_def sequential_sequence_def random_sequence_def
      locality_sequence_def)

lemma rejecting_benchmark:
  "fst (run_patterns rejecting_recorder elapsed (benchmarkSequences rnd) []) =
     map (\<lambda>ps. (fst ps, map (\<lambda>a. (a, \<lparr>cell_page_faults = 0, cell_hit_ratio = 0,
                     cell_execution_time = 0, cell_error = Some ''rejected''\<rparr>)) algorithms))
       (benchmarkSequences rnd) \<and>
   length (filter (\<lambda>r. r = PostReset)
            (snd (run_patterns rejecting_recorder elapsed (benchmarkSequences rnd) []))) = 9"
  unfolding rejecting_patterns[OF benchmark_sequences_nonempty]
  by (simp add: benchmarkSequences_def algorithms_def)

text \<open>
  C9. The benchmark compares FIFO, LRU and Clock only: Optimal is one of the four policies
  the user can select, it is not among the benchmark's algorithms, and no run of
  \<^verbatim>\<open>runBenchmark\<close>, against any back end and for any pattern, produces a cell for it.
\<close>

theorem benchmark_has_no_optimal_cell:
  "''Optimal'' \<in> set selectable_algorithms \<and> ''Optimal'' \<notin> set algorithms \<and>
   (\<forall>(be :: 'b backend) elapsed pats b pattern cells.
      (pattern, cells) \<in> set (fst (run_patterns be elapsed pats b)) \<longrightarrow>
        ''Optimal'' \<notin> fst ` set cells) \<and>
   (\<forall>(be :: 'b backend) rnd elapsed (fs :: app_state) b.
      connectionStatus fs = ''connected'' \<longrightarrow>
      (\<exists>results. benchmarkResults (fst (runBenchmark be rnd elapsed fs b)) = Some results \<and>
         (\<forall>pattern cells. (pattern, cells) \<in> set results \<longrightarrow>
            ''Optimal'' \<notin> fst ` set cells)))"
proof -
  have 1: "''Optimal'' \<in> set selectable_algorithms" by (simp add: selectable_algorithms_def)
  have 2: "''Optimal'' \<notin> set algorithms" by (simp add: algorithms_def)
  have 3: "''Optimal'' \<notin> fst ` set cells"
    if "(pattern, cells) \<in> set (fst (run_patterns be elapsed pats b))"
    for be :: "'b backend" and elapsed pats b pattern cells
  proof -
    from that have "map fst cells = algorithms" by (rule run_patterns_cells)
    then have "fst ` set cells = set algorithms" by (metis set_map)
    with 2 show ?thesis by simp
  qed
  have 4: "\<exists>results. benchmarkResults (fst (runBenchmark be rnd elapsed fs b)) = Some results \<and>
         (\<forall>pattern cells. (pattern, cells) \<in> set results \<longrightarrow> ''Optimal'' \<notin> fst ` set cells)"
    if c: "connectionStatus fs = ''connected''"
    for be :: "'b backend" and rnd elapsed and fs :: app_state and b
  proof -
    obtain results b' where r: "run_patterns be elapsed (benchmarkSequences rnd) b = (results, b')"
      by fastforce
    have a: "benchmarkResults (fst (runBenchmark be rnd elapsed fs b)) = Some results"
      using c r by (simp add: runBenchmark_def)
    have b: "\<forall>pattern cells. (pattern, cells) \<in> set results \<longrightarrow> ''Optimal'' \<notin> fst ` set cells"
      using 3[of _ _ be elapsed "benchmarkSequences rnd" b] r by simp
    show ?thesis by (rule exI[of _ results]) (intro conjI a b)
  qed
  show ?thesis
    apply (intro conjI allI impI)
       apply (rule 1)
      apply (rule 2)
     apply (erule 3)
    apply (erule 4)
    done
qed

theorem benchmark_has_no_optimal_cell_witness:
  "connectionStatus ((initial_app_state 0)\<lparr>connectionStatus := ''connected''\<rparr>) = ''connected'' \<and>
   (\<exists>results.
      benchmarkResults (fst (runBenchmark (api False) (\<lambda>i. 0) (\<lambda>p a. 1)
         ((initial_app_state 0)\<lparr>connectionStatus := ''connected''\<rparr>) (init_state NUM_FRAMES)))
        = Some results \<and>
      (\<forall>pattern cells. (pattern, cells) \<in> set results \<longrightarrow> ''Optimal'' \<notin> fst ` set cells))"
proof -
  define F where "F = (initial_app_state 0)\<lparr>connectionStatus := ''connected''\<rparr>"
  have cn: "connectionStatus F = ''connected''" by (simp add: F_def)
  from benchmark_has_no_optimal_cell[where 'b = vm_state]
  have T: "\<forall>(be :: vm_state backend) rnd elapsed (fs :: app_state) b.
      connectionStatus fs = ''connected'' \<longrightarrow>
      (\<exists>results. benchmarkResults (fst (runBenchmark be rnd elapsed fs b)) = Some results \<and>
         (\<forall>pattern cells. (pattern, cells) \<in> set results \<longrightarrow>
            ''Optimal'' \<notin> fst ` set cells))"
    by (elim conjE) assumption
  from T[rule_format, OF cn, of "api False" "\<lambda>i. 0" "\<lambda>p a. 1" "init_state NUM_FRAMES"] cn
  show ?thesis unfolding F_def by (intro conjI)
qed

lemma translate_address_pages:
  assumes "translate_address s fut p va = Inr (r, s')"
  shows "map_option pages_needed (map_of (procs s') q) = map_option pages_needed (map_of (procs s) q)"
proof -
  from assms obtain pr where pr: "map_of (procs s) p = Some pr"
    by (auto simp: translate_address_def split: option.splits)
  let ?g = "va div PAGE_SIZE"
  from assms pr have rng: "\<not> pages_needed pr \<le> ?g"
    by (auto simp: translate_address_def Let_def split: if_splits)
  show ?thesis
  proof (cases "tlb_lookup (tlb s) p ?g")
    case (Some f)
    with assms pr rng show ?thesis
      by (auto simp: translate_address_def Let_def record_access_def on_access_def
          count_tlb_hit_def map_of_upd_pte_pages)
  next
    case None
    with assms pr rng obtain e where e: "pte_at (procs s) p ?g = Some e"
      by (auto simp: translate_address_def Let_def split: option.splits)
    show ?thesis
    proof (cases "valid e")
      case True
      with assms pr rng None e show ?thesis
        by (auto simp: translate_address_def Let_def record_access_def on_access_def
            count_tlb_miss_def map_of_upd_pte_pages split: option.splits)
    next
      case False
      with assms pr rng None e obtain f steps s1 where
        ob: "obtain_frame (count_tlb_miss s) fut = Inr (f, steps, s1)"
        and s': "s' = record_access p va (count_fault (load_page p ?g f s1))"
        by (auto simp: translate_address_def Let_def handle_fault_def split: sum.splits)
      have "map_option pages_needed (map_of (procs s') q) = map_option pages_needed (map_of (procs s1) q)"
        by (simp add: s' record_access_def count_fault_def load_page_def map_of_upd_pte_pages)
      also have "\<dots> = map_option pages_needed (map_of (procs (count_tlb_miss s)) q)"
        using ob by (rule obtain_frame_pages)
      finally show ?thesis by (simp add: count_tlb_miss_def)
    qed
  qed
qed

lemma api_translate_pages:
  "map_option pages_needed (map_of (procs (snd (api rj s (PostTranslateAddress x y)))) q)
     = map_option pages_needed (map_of (procs s) q)"
proof (cases x)
  case (Num p)
  show ?thesis
  proof (cases y)
    case (Num va)
    show ?thesis
    proof (cases "p < 0 \<or> va < 0")
      case True
      with \<open>x = Num p\<close> Num show ?thesis by (simp add: failure_def)
    next
      case False
      show ?thesis
      proof (cases "translate_address s None (nat p) (nat va)")
        case (Inl e)
        with False \<open>x = Num p\<close> Num show ?thesis by (simp add: failure_def)
      next
        case (Inr rs)
        obtain r s' where "rs = (r, s')" by (cases rs)
        with Inr False \<open>x = Num p\<close> Num translate_address_pages[of s None "nat p" "nat va" r s' q]
        show ?thesis by simp
      qed
    qed
  qed (use \<open>x = Num p\<close> in \<open>simp_all add: failure_def\<close>)
qed (simp_all add: failure_def)

lemma replay_requests_pages:
  "map_option pages_needed (map_of (procs (snd (replay_requests (api rj) sequence s))) q)
     = map_option pages_needed (map_of (procs s) q)"
proof (induction sequence arbitrary: s)
  case Nil then show ?case by simp
next
  case (Cons x xs)
  obtain pid addr where x: "x = (pid, addr)" by (cases x)
  let ?req = "PostTranslateAddress (parseInt_number pid) (parseInt_number addr)"
  obtain res s1 where a: "api rj s ?req = (res, s1)" by fastforce
  have p1: "map_option pages_needed (map_of (procs s1) q) = map_option pages_needed (map_of (procs s) q)"
    using api_translate_pages[of rj s "parseInt_number pid" "parseInt_number addr" q] a by simp
  show ?case
  proof (cases res)
    case (Inl msg)
    with a x p1 show ?thesis by simp
  next
    case (Inr r)
    with a x p1 Cons.IH[of s1] show ?thesis by simp
  qed
qed

lemma benchmark_process:
  "procs (create_all (init_state NUM_FRAMES) [8]) =
     [(1, \<lparr>pages_needed = 8, page_table = replicate 8 cold_pte\<rparr>)]"
  by (simp add: create_process_def next_pid_Nil init_state_def)

subsection \<open>The comparison harness and the endpoints\<close>



lemma parse_algorithm_name: "parse_algorithm (algorithm_name x) = Some x"
  by (cases x) (simp_all add: parse_algorithm_def)




lemma recorder_replay:
  "replay_requests recorder sequence seen =
     (Inr (), seen @ map (\<lambda>a. PostTranslateAddress (parseInt_number (fst a)) (parseInt_number (snd a)))
                      sequence)"
  by (induction sequence arbitrary: seen) (auto simp: recorder_def)

lemma recorder_cell:
  "snd (try_cell recorder elapsed algorithm sequence seen) =
     seen @ [PostReset, PostCreateProcess (Num 8), PostSetAlgorithm algorithm]
         @ map (\<lambda>a. PostTranslateAddress (parseInt_number (fst a)) (parseInt_number (snd a)))
             sequence
         @ [GetMemoryState]"
  by (simp add: try_cell_def recorder_def recorder_replay no_data_def)





subsection \<open>A benchmark cell against the modelled endpoints\<close>

lemma translate_address_frames_length:
  assumes i: "inv s" and t: "translate_address s fut p va = Inr (r, s')"
  shows "length (frames s') = length (frames s)"
proof -
  from t obtain pr where pr: "map_of (procs s) p = Some pr"
    by (auto simp: translate_address_def split: option.splits)
  let ?g = "va div PAGE_SIZE"
  from t pr have rng: "\<not> pages_needed pr \<le> ?g"
    by (auto simp: translate_address_def Let_def split: if_splits)
  show ?thesis
  proof (cases "tlb_lookup (tlb s) p ?g")
    case (Some f)
    with t pr rng show ?thesis
      by (auto simp: translate_address_def Let_def record_access_def on_access_def count_tlb_hit_def)
  next
    case None
    with t pr rng obtain e where e: "pte_at (procs s) p ?g = Some e"
      by (auto simp: translate_address_def Let_def split: option.splits)
    show ?thesis
    proof (cases "valid e")
      case True
      with t pr rng None e show ?thesis
        by (auto simp: translate_address_def Let_def record_access_def on_access_def
            count_tlb_miss_def split: option.splits)
    next
      case False
      with t pr rng None e obtain f steps s1 where
        ob: "obtain_frame (count_tlb_miss s) fut = Inr (f, steps, s1)"
        and s': "s' = record_access p va (count_fault (load_page p ?g f s1))"
        by (auto simp: translate_address_def Let_def handle_fault_def split: sum.splits)
      from obtain_frame_props[OF inv_count_tlb_miss[OF i] ob]
      have "length (frames s1) = length (frames s)" by (simp add: count_tlb_miss_def)
      then show ?thesis by (simp add: s' record_access_def count_fault_def load_page_def)
    qed
  qed
qed

lemma cell_state_translate:
  assumes c: "cell_state s" and t: "translate_address s fut p va = Inr (r, s')"
  shows "cell_state s'"
proof -
  from c have i: "inv s" by (simp add: cell_state_def)
  have "inv s'" using i t by (rule inv_translate_address)
  moreover have "length (frames s') = NUM_FRAMES"
    using translate_address_frames_length[OF i t] c by (simp add: cell_state_def)
  moreover have "map_option pages_needed (map_of (procs s') q) = (if q = 1 then Some 8 else None)" for q
    using translate_address_pages[OF t, of q] c by (simp add: cell_state_def)
  ultimately show ?thesis by (simp add: cell_state_def)
qed

lemma cell_state_access: "cell_state s \<Longrightarrow> cell_state (access fut s a)"
  by (auto simp: access_def cell_state_translate split: sum.splits)

lemma cell_state_replay: "cell_state s \<Longrightarrow> cell_state (replay fut s xs)"
  by (induction xs arbitrary: s) (simp_all add: cell_state_access)

lemma cell_state_start: "cell_state (set_algorithm (create_all (init_state NUM_FRAMES) [8]) x)"
proof -
  let ?s = "set_algorithm (create_all (init_state NUM_FRAMES) [8]) x"
  have "reachable ?s"
    by (intro reachable.switched reachable_create_all reachable.fresh) (simp add: NUM_FRAMES_def)
  then have "inv ?s" by (rule reachable_inv)
  moreover have "procs ?s = [(1, \<lparr>pages_needed = 8, page_table = replicate 8 cold_pte\<rparr>)]"
    using benchmark_process by (simp add: set_algorithm_def del: create_all.simps)
  moreover have "length (frames ?s) = NUM_FRAMES"
    by (simp add: set_algorithm_def create_process_def init_state_def Let_def)
  ultimately show ?thesis by (simp add: cell_state_def del: create_all.simps)
qed

lemma cell_state_pte:
  assumes c: "cell_state s" and e: "pte_at (procs s) p g = Some e"
  shows "p = 1 \<and> g < 8"
proof -
  from e obtain pr where pr: "map_of (procs s) p = Some pr" and g: "g < length (page_table pr)"
    by (auto simp: pte_at_def split: option.splits if_splits)
  from c have "map_option pages_needed (map_of (procs s) p) = (if p = 1 then Some 8 else None)"
    by (simp add: cell_state_def)
  with pr have p: "p = 1" and n: "pages_needed pr = 8" by (auto split: if_splits)
  from c have "tables_ok (procs s)" by (simp add: cell_state_def inv_def)
  with pr have "length (page_table pr) = pages_needed pr" by (simp add: tables_ok_def)
  with g n p show ?thesis by simp
qed

lemma cell_not_full:
  assumes c: "cell_state s"
  shows "allocate_free (frames s) \<noteq> None"
proof
  assume "allocate_free (frames s) = None"
  then have full: "\<forall>f < length (frames s). frames s ! f \<noteq> None" by (simp add: allocate_free_None)
  from c have len: "length (frames s) = 16" by (simp add: cell_state_def NUM_FRAMES_def)
  from c have fc: "frames_coherent (frames s) (procs s)" by (simp add: cell_state_def inv_def)
  define G where "G f = snd (the (frames s ! f))" for f
  have occ: "\<exists>e. pte_at (procs s) 1 (G f) = Some e \<and> frame e = Some f \<and> G f < 8" if "f < 16" for f
  proof -
    from that full len obtain p g where fg: "frames s ! f = Some (p, g)" by fastforce
    with fc that len obtain e where e: "pte_at (procs s) p g = Some e" "frame e = Some f"
      unfolding frames_coherent_iff by fastforce
    from cell_state_pte[OF c e(1)] have "p = 1" "g < 8" by simp_all
    with e fg show ?thesis by (simp add: G_def)
  qed
  have inj: "inj_on G {..<16}"
  proof (rule inj_onI)
    fix f f' assume f: "f \<in> {..<16::nat}" and f': "f' \<in> {..<16::nat}" and eq: "G f = G f'"
    from occ[of f] f obtain e where e: "pte_at (procs s) 1 (G f) = Some e" "frame e = Some f" by auto
    from occ[of f'] f' obtain e' where e': "pte_at (procs s) 1 (G f') = Some e'" "frame e' = Some f'"
      by auto
    from e e' eq show "f = f'" by simp
  qed
  have "G ` {..<16} \<subseteq> {..<8}" using occ by auto
  then have "card (G ` {..<16}) \<le> card {..<8::nat}" by (intro card_mono) auto
  with inj show False by (simp add: card_image)
qed

lemma translate_address_free_pool:
  assumes "allocate_free (frames s) \<noteq> None"
  shows "translate_address s fut p va = translate_address s fut' p va"
proof -
  from assms obtain f where "allocate_free (frames (count_tlb_miss s)) = Some f"
    by (auto simp: count_tlb_miss_def)
  then have "handle_fault (count_tlb_miss s) fut p g va = handle_fault (count_tlb_miss s) fut' p g va"
    for g by (simp add: handle_fault_def obtain_frame_def)
  then show ?thesis by (simp add: translate_address_def Let_def split: option.splits)
qed

lemma cell_replay_no_future: "cell_state s \<Longrightarrow> replay fut s xs = replay None s xs"
proof (induction xs arbitrary: s)
  case Nil then show ?case by simp
next
  case (Cons a xs)
  have "access fut s a = access None s a"
    using translate_address_free_pool[OF cell_not_full[OF Cons.prems], of fut _ _ None]
    by (simp add: access_def)
  moreover have "cell_state (access None s a)" using Cons.prems by (rule cell_state_access)
  ultimately show ?case using Cons.IH by simp
qed



lemma cell_cold_access:
  assumes c: "cell_state s" and g: "va div PAGE_SIZE < 8"
    and e: "pte_at (procs s) 1 (va div PAGE_SIZE) = Some e" and nv: "\<not> valid e"
  shows "\<exists>r s'. translate_address s fut 1 va = Inr (r, s') \<and> page_fault r \<and>
           page_faults (stats s') = Suc (page_faults (stats s)) \<and>
           memory_accesses (stats s') = Suc (memory_accesses (stats s)) \<and>
           (\<forall>g'. g' \<noteq> va div PAGE_SIZE \<longrightarrow> pte_at (procs s') 1 g' = pte_at (procs s) 1 g')"
proof -
  let ?g = "va div PAGE_SIZE"
  from c have "map_option pages_needed (map_of (procs s) 1) = Some 8" by (simp add: cell_state_def)
  then obtain pr where pr: "map_of (procs s) 1 = Some pr" "pages_needed pr = 8" by auto
  from c have coh: "tlb_coherent (tlb s) (procs s)" by (simp add: cell_state_def inv_def)
  have miss: "tlb_lookup (tlb s) 1 ?g = None"
  proof (cases "tlb_lookup (tlb s) 1 ?g")
    case None then show ?thesis .
  next
    case (Some f)
    then have "((1, ?g), f) \<in> set (tlb s)" by (rule tlb_lookup_in_set)
    with coh obtain e' where "pte_at (procs s) 1 ?g = Some e'" "valid e'"
      unfolding tlb_coherent_def by fastforce
    with e nv show ?thesis by simp
  qed
  from cell_not_full[OF c] obtain f where f: "allocate_free (frames s) = Some f" by auto
  define r1 where "r1 = \<lparr>physical_address = f * PAGE_SIZE + va mod PAGE_SIZE, res_frame = f,
                page_fault = True, tlb_hit = False,
                translation_steps = [TlbMiss, PageFault] @ [] @ [PageFaultServiced]\<rparr>"
  define s1 where "s1 = record_access 1 va (count_fault (load_page 1 ?g f (count_tlb_miss s)))"
  have ob: "obtain_frame (count_tlb_miss s) fut = Inr (f, [], count_tlb_miss s)"
    using f by (simp add: obtain_frame_def count_tlb_miss_def)
  have t1: "translate_address s fut 1 va = Inr (r1, s1)"
    using pr g miss e nv ob
    by (simp add: translate_address_def Let_def handle_fault_def r1_def s1_def)
  have pf: "page_faults (stats s1) = Suc (page_faults (stats s))"
    by (simp add: s1_def record_access_def count_fault_def load_page_def count_tlb_miss_def)
  have ma: "memory_accesses (stats s1) = Suc (memory_accesses (stats s))"
    by (simp add: s1_def record_access_def count_fault_def load_page_def count_tlb_miss_def)
  have keep: "\<forall>g'. g' \<noteq> ?g \<longrightarrow> pte_at (procs s1) 1 g' = pte_at (procs s) 1 g'"
    by (simp add: s1_def record_access_def count_fault_def load_page_def count_tlb_miss_def
        pte_at_upd_pte)
  have "translate_address s fut 1 va = Inr (r1, s1) \<and> page_fault r1 \<and>
           page_faults (stats s1) = Suc (page_faults (stats s)) \<and>
           memory_accesses (stats s1) = Suc (memory_accesses (stats s)) \<and>
           (\<forall>g'. g' \<noteq> ?g \<longrightarrow> pte_at (procs s1) 1 g' = pte_at (procs s) 1 g')"
    using t1 pf ma keep by (simp add: r1_def)
  then show ?thesis by blast
qed

lemma cell_page_rejected:
  assumes c: "cell_state s" and i: "8 \<le> i"
  shows "translate_address s fut 1 (i * 4096) = Inl InvalidPage"
proof -
  from c have "map_option pages_needed (map_of (procs s) 1) = Some 8" by (simp add: cell_state_def)
  then obtain pr where pr: "map_of (procs s) 1 = Some pr" "pages_needed pr = 8" by auto
  with i show ?thesis by (simp add: translate_address_def PAGE_SIZE_def)
qed

lemma sequential_number:
  assumes "i < 20"
  shows "parseInt_number 1 = Num 1" and "parseInt_number (i * 4096) = Num (int (i * 4096))"
proof -
  show "parseInt_number 1 = Num 1" by (simp add: parseInt_number_def to_number_def)
  from assms have "int (i * 4096) \<le> 2 ^ 53" by simp
  then show "parseInt_number (i * 4096) = Num (int (i * 4096))"
    by (simp add: parseInt_number_def to_number_def)
qed

lemma sequential_cold_prefix:
  assumes "cell_state s" and "k \<le> 8"
    and "\<forall>g. k \<le> g \<and> g < 8 \<longrightarrow> (\<exists>e. pte_at (procs s) 1 g = Some e \<and> \<not> valid e)"
  shows "page_faults (stats (replay None s (map (\<lambda>i. (1, i * 4096)) [k..<8])))
           = page_faults (stats s) + (8 - k) \<and>
         memory_accesses (stats (replay None s (map (\<lambda>i. (1, i * 4096)) [k..<8])))
           = memory_accesses (stats s) + (8 - k) \<and>
         replay_requests (api rj) (map (\<lambda>i. (1, i * 4096)) [k..<8]) s
           = (Inr (), replay None s (map (\<lambda>i. (1, i * 4096)) [k..<8]))"
  using assms
proof (induction "8 - k" arbitrary: k s)
  case 0
  then have "k = 8" by simp
  then show ?case by simp
next
  case (Suc n)
  then have k: "k < 8" by simp
  then have up: "[k..<8] = k # [Suc k..<8]" by (rule upt_conv_Cons)
  have dv: "k * 4096 div PAGE_SIZE = k" by (simp add: PAGE_SIZE_def)
  from Suc.prems(3) k obtain e where e: "pte_at (procs s) 1 k = Some e" "\<not> valid e" by blast
  from cell_cold_access[OF Suc.prems(1), of "k * 4096" e None] k e dv
  obtain r s' where t: "translate_address s None 1 (k * 4096) = Inr (r, s')"
    and pf: "page_faults (stats s') = Suc (page_faults (stats s))"
    and ma: "memory_accesses (stats s') = Suc (memory_accesses (stats s))"
    and keep: "\<forall>g'. g' \<noteq> k \<longrightarrow> pte_at (procs s') 1 g' = pte_at (procs s) 1 g'"
    by auto
  have acc: "access None s (1, k * 4096) = s'" using t by (simp add: access_def)
  have c': "cell_state s'" using Suc.prems(1) t by (rule cell_state_translate)
  have cold': "\<forall>g. Suc k \<le> g \<and> g < 8 \<longrightarrow> (\<exists>e. pte_at (procs s') 1 g = Some e \<and> \<not> valid e)"
    using Suc.prems(3) keep by auto
  have n: "n = 8 - Suc k" using Suc.hyps(2) by simp
  note IH = Suc.hyps(1)[OF n c' _ cold']
  have nn: "nat (int k * 4096) = k * 4096" by (simp add: nat_mult_distrib)
  have a: "api rj s (PostTranslateAddress (parseInt_number 1) (parseInt_number (k * 4096)))
      = (Inr (no_data\<lparr>resp_success := True, resp_memory_state := Some (memory_state s'),
                              resp_result := Some []\<rparr>), s')"
    using sequential_number[of k] k t nn by simp
  from IH k have 1: "page_faults (stats (replay None s' (map (\<lambda>i. (1, i * 4096)) [Suc k..<8])))
           = page_faults (stats s') + (8 - Suc k)"
    and 2: "memory_accesses (stats (replay None s' (map (\<lambda>i. (1, i * 4096)) [Suc k..<8])))
           = memory_accesses (stats s') + (8 - Suc k)"
    and 3: "replay_requests (api rj) (map (\<lambda>i. (1, i * 4096)) [Suc k..<8]) s'
           = (Inr (), replay None s' (map (\<lambda>i. (1, i * 4096)) [Suc k..<8]))"
    by simp_all
  have P: "page_faults (stats (replay None s' (map (\<lambda>i. (1, i * 4096)) [Suc k..<8])))
           = page_faults (stats s) + (8 - k)" using 1 pf k by arith
  have M: "memory_accesses (stats (replay None s' (map (\<lambda>i. (1, i * 4096)) [Suc k..<8])))
           = memory_accesses (stats s) + (8 - k)" using 2 ma k by arith
  show ?case unfolding up using P M 3 acc a by simp
qed

lemma replay_append: "replay fut s (xs @ ys) = replay fut (replay fut s xs) ys"
  by (induction xs arbitrary: s) simp_all

lemma replay_all_rejected:
  "\<forall>a \<in> set xs. isl (translate_address s fut (fst a) (snd a)) \<Longrightarrow> replay fut s xs = s"
  by (induction xs) (auto simp: access_def split: sum.splits)

lemma replay_requests_all_ignored:
  "\<forall>a \<in> set xs. \<exists>r. be s (PostTranslateAddress (parseInt_number (fst a)) (parseInt_number (snd a)))
       = (Inr r, s) \<Longrightarrow> replay_requests be xs s = (Inr (), s)"
  by (induction xs) auto

lemma sequential_split:
  "sequential_sequence = map (\<lambda>i. (1, i * 4096)) [0..<8] @ map (\<lambda>i. (1, i * 4096)) [8..<20]"
proof -
  have "[0..<20] = [0..<8] @ [8..<20]" using upt_add_eq_append[of 0 8 12] by simp
  then show ?thesis by (simp add: sequential_sequence_def)
qed

lemma sequential_tail:
  assumes c: "cell_state s"
  shows "replay fut s (map (\<lambda>i. (1, i * 4096)) [8..<20]) = s"
    and "replay_requests (api False) (map (\<lambda>i. (1, i * 4096)) [8..<20]) s = (Inr (), s)"
    and "replay_requests (api True) (map (\<lambda>i. (1, i * 4096)) [8..<20]) s = (Inl ''InvalidPage'', s)"
proof -
  have rej: "translate_address s fut' 1 (i * 4096) = Inl InvalidPage" if "8 \<le> i" for i fut'
    using c that by (rule cell_page_rejected)
  have "\<forall>a \<in> set (map (\<lambda>i. (1, i * 4096)) [8..<20]).
          isl (translate_address s fut (fst a) (snd a))"
    unfolding set_map set_upt using rej by auto
  then show "replay fut s (map (\<lambda>i. (1, i * 4096)) [8..<20]) = s"
    by (rule replay_all_rejected)
  have nn: "nat (int i * 4096) = i * 4096" for i by (simp add: nat_mult_distrib)
  have a: "api rj s (PostTranslateAddress (parseInt_number 1) (parseInt_number (i * 4096)))
      = failure rj InvalidPage s" if "8 \<le> i" "i < 20" for i rj
    using sequential_number[of i] that rej[of i None] nn by simp
  have "\<forall>a \<in> set (map (\<lambda>i. (1, i * 4096)) [8..<20]).
          \<exists>r. api False s (PostTranslateAddress (parseInt_number (fst a)) (parseInt_number (snd a)))
                = (Inr r, s)"
    unfolding set_map set_upt using a[of _ False] by (auto simp: failure_def)
  then show "replay_requests (api False) (map (\<lambda>i. (1, i * 4096)) [8..<20]) s = (Inr (), s)"
    by (rule replay_requests_all_ignored)
  have up: "[8..<20] = 8 # [9..<20]" by (simp add: upt_conv_Cons)
  show "replay_requests (api True) (map (\<lambda>i. (1, i * 4096)) [8..<20]) s = (Inl ''InvalidPage'', s)"
    unfolding up using a[of 8 True] by (simp add: failure_def)
qed

lemma cell_start_cold:
  "\<forall>g. 0 \<le> g \<and> g < 8 \<longrightarrow>
     (\<exists>e. pte_at (procs (set_algorithm (create_all (init_state NUM_FRAMES) [8]) x)) 1 g = Some e
          \<and> \<not> valid e)"
  using benchmark_process
  by (simp add: set_algorithm_def pte_at_def cold_pte_def del: create_all.simps)

lemma cell_start_stats:
  "stats (set_algorithm (create_all (init_state NUM_FRAMES) [8]) x) =
     \<lparr>memory_accesses = 0, page_faults = 0, tlb_hits = 0, tlb_misses = 0\<rparr>"
  by (simp add: set_algorithm_def create_process_def init_state_def Let_def)

text \<open>The sequential pattern in a cell: the first eight accesses load the eight pages of
  process 1, one fault each; the other twelve are rejected.\<close>

lemma sequential_replay:
  fixes x
  defines "s3 \<equiv> set_algorithm (create_all (init_state NUM_FRAMES) [8]) x"
  defines "s8 \<equiv> replay None s3 (map (\<lambda>i. (1, i * 4096)) [0..<8])"
  shows "page_faults (stats s8) = 8" and "memory_accesses (stats s8) = 8"
    and "replay fut s3 sequential_sequence = s8"
    and "replay_requests (api False) sequential_sequence s3 = (Inr (), s8)"
    and "replay_requests (api True) sequential_sequence s3 = (Inl ''InvalidPage'', s8)"
proof -
  have c3: "cell_state s3" unfolding s3_def by (rule cell_state_start)
  have cold: "\<forall>g. 0 \<le> g \<and> g < 8 \<longrightarrow> (\<exists>e. pte_at (procs s3) 1 g = Some e \<and> \<not> valid e)"
    unfolding s3_def by (rule cell_start_cold)
  have st: "page_faults (stats s3) = 0" "memory_accesses (stats s3) = 0"
    unfolding s3_def by (simp_all add: cell_start_stats del: create_all.simps)
  have pre: "page_faults (stats s8) = page_faults (stats s3) + (8 - 0) \<and>
         memory_accesses (stats s8) = memory_accesses (stats s3) + (8 - 0) \<and>
         replay_requests (api rj) (map (\<lambda>i. (1, i * 4096)) [0..<8]) s3 = (Inr (), s8)" for rj
    unfolding s8_def by (rule sequential_cold_prefix[OF c3 _ cold]) simp
  from pre[of True] st show "page_faults (stats s8) = 8" "memory_accesses (stats s8) = 8"
    by simp_all
  have c8: "cell_state s8" unfolding s8_def using c3 by (rule cell_state_replay)
  have "replay fut s3 sequential_sequence = replay None s3 sequential_sequence"
    using c3 by (rule cell_replay_no_future)
  also have "\<dots> = replay None s8 (map (\<lambda>i. (1, i * 4096)) [8..<20])"
    unfolding sequential_split replay_append s8_def ..
  also have "\<dots> = s8" using c8 by (rule sequential_tail(1))
  finally show "replay fut s3 sequential_sequence = s8" .
  show "replay_requests (api False) sequential_sequence s3 = (Inr (), s8)"
    unfolding sequential_split replay_requests_append using pre[of False] sequential_tail(2)[OF c8]
    by simp
  show "replay_requests (api True) sequential_sequence s3 = (Inl ''InvalidPage'', s8)"
    unfolding sequential_split replay_requests_append using pre[of True] sequential_tail(3)[OF c8]
    by simp
qed

lemma api_set_algorithm:
  "api rj s (PostSetAlgorithm (algorithm_name x)) = ok_state (set_algorithm s x)"
  by (simp add: parse_algorithm_name)

lemma sequential_cell_rejecting:
  "run_cell (api True) elapsed (algorithm_name x) sequential_sequence s =
     (\<lparr>cell_page_faults = 0, cell_hit_ratio = 0, cell_execution_time = 0,
       cell_error = Some ''InvalidPage''\<rparr>,
      replay None (set_algorithm (create_all (init_state NUM_FRAMES) [8]) x)
        (map (\<lambda>i. (1, i * 4096)) [0..<8]))"
  unfolding run_cell_def try_cell_api api_set_algorithm ok_state_def
  by (simp add: sequential_replay(5) del: create_all.simps)

lemma sequential_cell_accepting:
  "run_cell (api False) elapsed (algorithm_name x) sequential_sequence s =
     (\<lparr>cell_page_faults = 8, cell_hit_ratio = 0, cell_execution_time = elapsed,
       cell_error = None\<rparr>,
      replay None (set_algorithm (create_all (init_state NUM_FRAMES) [8]) x)
        (map (\<lambda>i. (1, i * 4096)) [0..<8]))"
proof -
  define s3 where "s3 = set_algorithm (create_all (init_state NUM_FRAMES) [8]) x"
  define s8 where "s8 = replay None s3 (map (\<lambda>i. (1, i * 4096)) [0..<8])"
  have pf: "page_faults (stats s8) = 8" and ma: "memory_accesses (stats s8) = 8"
    unfolding s8_def s3_def by (rule sequential_replay)+
  have rr: "replay_requests (api False) sequential_sequence s3 = (Inr (), s8)"
    unfolding s8_def s3_def by (rule sequential_replay)
  have "run_cell (api False) elapsed (algorithm_name x) sequential_sequence s =
     (\<lparr>cell_page_faults = 8, cell_hit_ratio = 0, cell_execution_time = elapsed,
       cell_error = None\<rparr>, s8)"
    unfolding run_cell_def try_cell_api api_set_algorithm ok_state_def s3_def[symmetric]
    by (simp add: rr pf ma hit_ratio_def)
  then show ?thesis unfolding s8_def s3_def .
qed


subsection \<open>The requests of a cell, whatever the back end answers\<close>

lemma replay_requests_logged:
  "\<exists>k \<le> length sequence.
     replay_requests (logged be) sequence (b, seen) =
       (fst (replay_requests be sequence b), snd (replay_requests be sequence b),
        seen @ take k (map (\<lambda>a. PostTranslateAddress (parseInt_number (fst a))
                                  (parseInt_number (snd a))) sequence)) \<and>
     (isl (fst (replay_requests be sequence b)) \<or> k = length sequence)"
proof (induction sequence arbitrary: b seen)
  case Nil then show ?case by simp
next
  case (Cons x xs)
  obtain pid addr where x: "x = (pid, addr)" by (cases x)
  let ?req = "PostTranslateAddress (parseInt_number pid) (parseInt_number addr)"
  let ?M = "map (\<lambda>a. PostTranslateAddress (parseInt_number (fst a)) (parseInt_number (snd a))) xs"
  obtain res b1 where a: "be b ?req = (res, b1)" by fastforce
  then have la: "logged be (b, seen) ?req = (res, b1, seen @ [?req])" by (simp add: logged_def)
  show ?case
  proof (cases res)
    case (Inl msg)
    have "replay_requests (logged be) (x # xs) (b, seen) =
       (fst (replay_requests be (x # xs) b), snd (replay_requests be (x # xs) b),
        seen @ take 1 (?req # ?M)) \<and> isl (fst (replay_requests be (x # xs) b))"
      using x a la Inl by simp
    then show ?thesis using x by (intro exI[of _ 1]) simp
  next
    case (Inr r)
    from Cons.IH[of b1 "seen @ [?req]"] obtain k where k: "k \<le> length xs"
      and e: "replay_requests (logged be) xs (b1, seen @ [?req]) =
       (fst (replay_requests be xs b1), snd (replay_requests be xs b1),
        (seen @ [?req]) @ take k ?M)"
      and f: "isl (fst (replay_requests be xs b1)) \<or> k = length xs"
      by blast
    have "replay_requests (logged be) (x # xs) (b, seen) =
       (fst (replay_requests be (x # xs) b), snd (replay_requests be (x # xs) b),
        seen @ take (Suc k) (?req # ?M)) \<and>
       (isl (fst (replay_requests be (x # xs) b)) \<or> Suc k = length (x # xs))"
      using x a la Inr e f by simp
    then show ?thesis using x k by (intro exI[of _ "Suc k"]) simp
  qed
qed

lemma try_cell_logged:
  "\<exists>k. try_cell (logged be) elapsed algorithm sequence (b, seen) =
         (fst (try_cell be elapsed algorithm sequence b),
          snd (try_cell be elapsed algorithm sequence b),
          seen @ take (Suc k) (cell_requests algorithm sequence))"
proof -
  let ?M = "map (\<lambda>a. PostTranslateAddress (parseInt_number (fst a)) (parseInt_number (snd a)))
              sequence"
  let ?P = "\<lambda>k. try_cell (logged be) elapsed algorithm sequence (b, seen) =
         (fst (try_cell be elapsed algorithm sequence b),
          snd (try_cell be elapsed algorithm sequence b),
          seen @ take (Suc k) (cell_requests algorithm sequence))"
  obtain x1 b1 where a1: "be b PostReset = (x1, b1)" by fastforce
  then have l1: "logged be (b, seen) PostReset = (x1, b1, seen @ [PostReset])"
    by (simp add: logged_def)
  show ?thesis
  proof (cases x1)
    case (Inl msg)
    with a1 l1 have "?P 0" by (simp add: try_cell_def cell_requests_def)
    then show ?thesis ..
  next
    case r1: (Inr r1)
    let ?s1 = "seen @ [PostReset]"
    obtain x2 b2 where a2: "be b1 (PostCreateProcess (Num 8)) = (x2, b2)" by fastforce
    then have l2: "logged be (b1, ?s1) (PostCreateProcess (Num 8))
        = (x2, b2, ?s1 @ [PostCreateProcess (Num 8)])"
      by (simp add: logged_def)
    show ?thesis
    proof (cases x2)
      case (Inl msg)
      with a1 l1 r1 a2 l2 have "?P 1" by (simp add: try_cell_def cell_requests_def)
      then show ?thesis ..
    next
      case r2: (Inr r2)
      let ?s2 = "?s1 @ [PostCreateProcess (Num 8)]"
      obtain x3 b3 where a3: "be b2 (PostSetAlgorithm algorithm) = (x3, b3)" by fastforce
      then have l3: "logged be (b2, ?s2) (PostSetAlgorithm algorithm)
          = (x3, b3, ?s2 @ [PostSetAlgorithm algorithm])"
        by (simp add: logged_def)
      show ?thesis
      proof (cases x3)
        case (Inl msg)
        with a1 l1 r1 a2 l2 r2 a3 l3 have "?P 2" by (simp add: try_cell_def cell_requests_def)
        then show ?thesis ..
      next
        case r3: (Inr r3)
        let ?s3 = "?s2 @ [PostSetAlgorithm algorithm]"
        obtain x4 b4 where a4: "replay_requests be sequence b3 = (x4, b4)" by fastforce
        from replay_requests_logged[of sequence be b3 ?s3] a4 obtain k where k: "k \<le> length sequence"
          and l4: "replay_requests (logged be) sequence (b3, ?s3) = (x4, b4, ?s3 @ take k ?M)"
          and f: "isl x4 \<or> k = length sequence"
          by auto
        show ?thesis
        proof (cases x4)
          case (Inl msg)
          have tk: "take (Suc (Suc (Suc k))) (cell_requests algorithm sequence) =
              [PostReset, PostCreateProcess (Num 8), PostSetAlgorithm algorithm] @ take k ?M"
            using k by (simp add: cell_requests_def)
          have "?P (Suc (Suc k))"
            unfolding tk using a1 l1 r1 a2 l2 r2 a3 l3 r3 a4 l4 Inl by (simp add: try_cell_def)
          then show ?thesis ..
        next
          case r4: (Inr u)
          with f have kk: "k = length sequence" by simp
          let ?s4 = "?s3 @ ?M"
          obtain x5 b5 where a5: "be b4 GetMemoryState = (x5, b5)" by fastforce
          then have l5: "logged be (b4, ?s4) GetMemoryState = (x5, b5, ?s4 @ [GetMemoryState])"
            by (simp add: logged_def)
          have tk: "take (Suc (Suc (Suc (Suc (length sequence))))) (cell_requests algorithm sequence) =
              [PostReset, PostCreateProcess (Num 8), PostSetAlgorithm algorithm] @ ?M @ [GetMemoryState]"
            by (simp add: cell_requests_def)
          have "?P (Suc (Suc (Suc (length sequence))))"
            unfolding tk using a1 l1 r1 a2 l2 r2 a3 l3 r3 a4 l4 r4 kk a5 l5
            by (simp add: try_cell_def split: sum.splits option.splits)
          then show ?thesis ..
        qed
      qed
    qed
  qed
qed

lemma cell_requests_one_reset:
  "length (filter (\<lambda>r. r = PostReset) (take (Suc k) (cell_requests algorithm sequence))) = 1"
proof -
  have "take (Suc k) (cell_requests algorithm sequence) =
      PostReset # take k (tl (cell_requests algorithm sequence))"
    by (simp add: cell_requests_def)
  moreover have "PostReset \<notin> set (tl (cell_requests algorithm sequence))"
    by (auto simp: cell_requests_def)
  then have "PostReset \<notin> set (take k (tl (cell_requests algorithm sequence)))"
    by (auto dest: in_set_takeD)
  then have "filter (\<lambda>r. r = PostReset) (take k (tl (cell_requests algorithm sequence))) = []"
    by (auto simp: filter_empty_conv)
  ultimately show ?thesis by simp
qed

lemma run_cell_logged:
  "\<exists>xs. run_cell (logged be) elapsed algorithm sequence (b, seen) =
         (fst (run_cell be elapsed algorithm sequence b),
          snd (run_cell be elapsed algorithm sequence b), seen @ xs) \<and>
        length (filter (\<lambda>r. r = PostReset) xs) = 1"
proof -
  from try_cell_logged[of be elapsed algorithm sequence b seen] obtain k where
    k: "try_cell (logged be) elapsed algorithm sequence (b, seen) =
         (fst (try_cell be elapsed algorithm sequence b),
          snd (try_cell be elapsed algorithm sequence b),
          seen @ take (Suc k) (cell_requests algorithm sequence))" ..
  obtain x b' where t: "try_cell be elapsed algorithm sequence b = (x, b')" by fastforce
  have "run_cell (logged be) elapsed algorithm sequence (b, seen) =
         (fst (run_cell be elapsed algorithm sequence b),
          snd (run_cell be elapsed algorithm sequence b),
          seen @ take (Suc k) (cell_requests algorithm sequence))"
    using k t by (cases x) (simp_all add: run_cell_def)
  with cell_requests_one_reset[of k algorithm sequence] show ?thesis by blast
qed

lemma run_algorithms_logged:
  "\<exists>xs. run_algorithms (logged be) elapsed sequence algs (b, seen) =
         (fst (run_algorithms be elapsed sequence algs b),
          snd (run_algorithms be elapsed sequence algs b), seen @ xs) \<and>
        length (filter (\<lambda>r. r = PostReset) xs) = length algs"
proof (induction algs arbitrary: b seen)
  case Nil then show ?case by simp
next
  case (Cons a algs)
  obtain c b1 where c: "run_cell be (elapsed a) a sequence b = (c, b1)" by fastforce
  from run_cell_logged[of be "elapsed a" a sequence b seen] c obtain xs where
    l: "run_cell (logged be) (elapsed a) a sequence (b, seen) = (c, b1, seen @ xs)"
    and n: "length (filter (\<lambda>r. r = PostReset) xs) = 1" by auto
  obtain cs b2 where r: "run_algorithms be elapsed sequence algs b1 = (cs, b2)" by fastforce
  from Cons.IH[of b1 "seen @ xs"] r obtain ys where
    l2: "run_algorithms (logged be) elapsed sequence algs (b1, seen @ xs) = (cs, b2, (seen @ xs) @ ys)"
    and n2: "length (filter (\<lambda>r. r = PostReset) ys) = length algs" by auto
  have "run_algorithms (logged be) elapsed sequence (a # algs) (b, seen) =
         (fst (run_algorithms be elapsed sequence (a # algs) b),
          snd (run_algorithms be elapsed sequence (a # algs) b), seen @ (xs @ ys)) \<and>
        length (filter (\<lambda>r. r = PostReset) (xs @ ys)) = length (a # algs)"
    using c l r l2 n n2 by simp
  then show ?case by blast
qed

lemma run_patterns_logged:
  "\<exists>xs. run_patterns (logged be) elapsed pats (b, seen) =
         (fst (run_patterns be elapsed pats b),
          snd (run_patterns be elapsed pats b), seen @ xs) \<and>
        length (filter (\<lambda>r. r = PostReset) xs) = length pats * length algorithms"
proof (induction pats arbitrary: b seen)
  case Nil then show ?case by simp
next
  case (Cons x pats)
  obtain p sequence where x: "x = (p, sequence)" by (cases x)
  obtain cs b1 where c: "run_algorithms be (elapsed p) sequence algorithms b = (cs, b1)" by fastforce
  from run_algorithms_logged[of be "elapsed p" sequence algorithms b seen] c obtain xs where
    l: "run_algorithms (logged be) (elapsed p) sequence algorithms (b, seen) = (cs, b1, seen @ xs)"
    and n: "length (filter (\<lambda>r. r = PostReset) xs) = length algorithms" by auto
  obtain rs b2 where r: "run_patterns be elapsed pats b1 = (rs, b2)" by fastforce
  from Cons.IH[of b1 "seen @ xs"] r obtain ys where
    l2: "run_patterns (logged be) elapsed pats (b1, seen @ xs) = (rs, b2, (seen @ xs) @ ys)"
    and n2: "length (filter (\<lambda>r. r = PostReset) ys) = length pats * length algorithms" by auto
  have "run_patterns (logged be) elapsed (x # pats) (b, seen) =
         (fst (run_patterns be elapsed (x # pats) b),
          snd (run_patterns be elapsed (x # pats) b), seen @ (xs @ ys)) \<and>
        length (filter (\<lambda>r. r = PostReset) (xs @ ys)) = length (x # pats) * length algorithms"
    using x c l r l2 n n2 by simp
  then show ?case by blast
qed

lemma runBenchmark_logged:
  assumes "connectionStatus fs = ''connected''"
  shows "benchmarkResults (fst (runBenchmark (logged be) rnd elapsed fs (b, seen))) =
           benchmarkResults (fst (runBenchmark be rnd elapsed fs b)) \<and>
         (\<exists>xs. snd (snd (runBenchmark (logged be) rnd elapsed fs (b, seen))) = seen @ xs \<and>
               length (filter (\<lambda>r. r = PostReset) xs) = 9)"
proof -
  from run_patterns_logged[of be elapsed "benchmarkSequences rnd" b seen] obtain xs where
    l: "run_patterns (logged be) elapsed (benchmarkSequences rnd) (b, seen) =
         (fst (run_patterns be elapsed (benchmarkSequences rnd) b),
          snd (run_patterns be elapsed (benchmarkSequences rnd) b), seen @ xs)"
    and n: "length (filter (\<lambda>r. r = PostReset) xs) = length (benchmarkSequences rnd) * length algorithms"
    by blast
  from n have n9: "length (filter (\<lambda>r. r = PostReset) xs) = 9"
    by (simp add: benchmarkSequences_def algorithms_def)
  have 1: "benchmarkResults (fst (runBenchmark (logged be) rnd elapsed fs (b, seen))) =
           benchmarkResults (fst (runBenchmark be rnd elapsed fs b))"
    using assms l by (simp add: runBenchmark_def split: prod.splits)
  have 2: "snd (snd (runBenchmark (logged be) rnd elapsed fs (b, seen))) = seen @ xs"
    using assms l by (simp add: runBenchmark_def split: prod.splits)
  from 1 2 n9 show ?thesis by blast
qed

lemma runBenchmark_cells:
  assumes cn: "connectionStatus fs = ''connected''"
  shows "\<exists>c1 c2 c3 c4 c5 c6 c7 c8 c9 b1 b2 b3 b4 b5 b6 b7 b8 b9.
         run_cell be (elapsed ''sequential'' ''FIFO'') ''FIFO'' sequential_sequence b = (c1, b1) \<and>
         run_cell be (elapsed ''sequential'' ''LRU'') ''LRU'' sequential_sequence b1 = (c2, b2) \<and>
         run_cell be (elapsed ''sequential'' ''Clock'') ''Clock'' sequential_sequence b2 = (c3, b3) \<and>
         run_cell be (elapsed ''random'' ''FIFO'') ''FIFO'' (random_sequence rnd) b3 = (c4, b4) \<and>
         run_cell be (elapsed ''random'' ''LRU'') ''LRU'' (random_sequence rnd) b4 = (c5, b5) \<and>
         run_cell be (elapsed ''random'' ''Clock'') ''Clock'' (random_sequence rnd) b5 = (c6, b6) \<and>
         run_cell be (elapsed ''locality'' ''FIFO'') ''FIFO'' (locality_sequence rnd) b6 = (c7, b7) \<and>
         run_cell be (elapsed ''locality'' ''LRU'') ''LRU'' (locality_sequence rnd) b7 = (c8, b8) \<and>
         run_cell be (elapsed ''locality'' ''Clock'') ''Clock'' (locality_sequence rnd) b8 = (c9, b9) \<and>
         runBenchmark be rnd elapsed fs b =
           (fs\<lparr>benchmarkResults := Some
                 [(''sequential'', [(''FIFO'', c1), (''LRU'', c2), (''Clock'', c3)]),
                  (''random'', [(''FIFO'', c4), (''LRU'', c5), (''Clock'', c6)]),
                  (''locality'', [(''FIFO'', c7), (''LRU'', c8), (''Clock'', c9)])],
               showBenchmark := True, isBenchmarkRunning := False\<rparr>, b9)"
proof -
  obtain c1 b1 where 1: "run_cell be (elapsed ''sequential'' ''FIFO'') ''FIFO'' sequential_sequence b = (c1, b1)" by fastforce
  obtain c2 b2 where 2: "run_cell be (elapsed ''sequential'' ''LRU'') ''LRU'' sequential_sequence b1 = (c2, b2)" by fastforce
  obtain c3 b3 where 3: "run_cell be (elapsed ''sequential'' ''Clock'') ''Clock'' sequential_sequence b2 = (c3, b3)" by fastforce
  obtain c4 b4 where 4: "run_cell be (elapsed ''random'' ''FIFO'') ''FIFO'' (random_sequence rnd) b3 = (c4, b4)" by fastforce
  obtain c5 b5 where 5: "run_cell be (elapsed ''random'' ''LRU'') ''LRU'' (random_sequence rnd) b4 = (c5, b5)" by fastforce
  obtain c6 b6 where 6: "run_cell be (elapsed ''random'' ''Clock'') ''Clock'' (random_sequence rnd) b5 = (c6, b6)" by fastforce
  obtain c7 b7 where 7: "run_cell be (elapsed ''locality'' ''FIFO'') ''FIFO'' (locality_sequence rnd) b6 = (c7, b7)" by fastforce
  obtain c8 b8 where 8: "run_cell be (elapsed ''locality'' ''LRU'') ''LRU'' (locality_sequence rnd) b7 = (c8, b8)" by fastforce
  obtain c9 b9 where 9: "run_cell be (elapsed ''locality'' ''Clock'') ''Clock'' (locality_sequence rnd) b8 = (c9, b9)" by fastforce
  have "runBenchmark be rnd elapsed fs b =
           (fs\<lparr>benchmarkResults := Some
                 [(''sequential'', [(''FIFO'', c1), (''LRU'', c2), (''Clock'', c3)]),
                  (''random'', [(''FIFO'', c4), (''LRU'', c5), (''Clock'', c6)]),
                  (''locality'', [(''FIFO'', c7), (''LRU'', c8), (''Clock'', c9)])],
               showBenchmark := True, isBenchmarkRunning := False\<rparr>, b9)"
    using cn by (simp add: runBenchmark_def benchmarkSequences_def algorithms_def 1 2 3 4 5 6 7 8 9)
  with 1 2 3 4 5 6 7 8 9 show ?thesis by blast
qed

subsection \<open>A failing cell does not stop the benchmark\<close>

text \<open>
  C3. In \<^verbatim>\<open>runBenchmark\<close>, against any back end: when a request of a cell's replay is
  rejected (the requests before it having succeeded), or any other request of the cell
  throws (the reset, the creation of the process, the choice of the algorithm, the reading
  of the statistics), the cell is recorded as \<open>page_faults = 0\<close>, \<open>hit_ratio = 0\<close>,
  \<open>execution_time = 0\<close> with the error's message. A connected run executes the nine cells
  one after the other, each from the server state the cell before it left, whether that
  cell failed or not, and stores exactly their nine records as the benchmark results, the
  three patterns each with its FIFO, LRU and Clock cell. Whatever the back end answers,
  nine resets reach it, one at the start of each cell. Against a back end that rejects
  every \<^verbatim>\<open>translate_address\<close> request every one of the nine cells is recorded as failed.
\<close>

theorem benchmark_isolates_failures:
  "(\<forall>(be :: 'b backend) elapsed algorithm b b1 b2 b3 r1 r2 r3 pre pid addr post bk bk' msg.
      be b PostReset = (Inr r1, b1) \<and> be b1 (PostCreateProcess (Num 8)) = (Inr r2, b2) \<and>
      be b2 (PostSetAlgorithm algorithm) = (Inr r3, b3) \<and>
      replay_requests be pre b3 = (Inr (), bk) \<and>
      be bk (PostTranslateAddress (parseInt_number pid) (parseInt_number addr)) = (Inl msg, bk')
      \<longrightarrow> run_cell be elapsed algorithm (pre @ (pid, addr) # post) b =
            (\<lparr>cell_page_faults = 0, cell_hit_ratio = 0, cell_execution_time = 0,
              cell_error = Some msg\<rparr>, bk')) \<and>
   (\<forall>(be :: 'b backend) elapsed algorithm sequence b msg b'.
      try_cell be elapsed algorithm sequence b = (Inl msg, b')
      \<longrightarrow> run_cell be elapsed algorithm sequence b =
            (\<lparr>cell_page_faults = 0, cell_hit_ratio = 0, cell_execution_time = 0,
              cell_error = Some msg\<rparr>, b')) \<and>
   (\<forall>(be :: 'b backend) elapsed algorithm sequence b b1 b2 b3 b4 r1 r2 r3 msg b'.
      be b PostReset = (Inl msg, b') \<or>
      be b PostReset = (Inr r1, b1) \<and> be b1 (PostCreateProcess (Num 8)) = (Inl msg, b') \<or>
      be b PostReset = (Inr r1, b1) \<and> be b1 (PostCreateProcess (Num 8)) = (Inr r2, b2) \<and>
        be b2 (PostSetAlgorithm algorithm) = (Inl msg, b') \<or>
      be b PostReset = (Inr r1, b1) \<and> be b1 (PostCreateProcess (Num 8)) = (Inr r2, b2) \<and>
        be b2 (PostSetAlgorithm algorithm) = (Inr r3, b3) \<and>
        replay_requests be sequence b3 = (Inr (), b4) \<and> be b4 GetMemoryState = (Inl msg, b')
      \<longrightarrow> run_cell be elapsed algorithm sequence b =
            (\<lparr>cell_page_faults = 0, cell_hit_ratio = 0, cell_execution_time = 0,
              cell_error = Some msg\<rparr>, b')) \<and>
   (\<forall>(be :: 'b backend) rnd elapsed fs b.
      connectionStatus fs = ''connected'' \<longrightarrow>
      (\<exists>c1 c2 c3 c4 c5 c6 c7 c8 c9 b1 b2 b3 b4 b5 b6 b7 b8 b9.
         run_cell be (elapsed ''sequential'' ''FIFO'') ''FIFO'' sequential_sequence b = (c1, b1) \<and>
         run_cell be (elapsed ''sequential'' ''LRU'') ''LRU'' sequential_sequence b1 = (c2, b2) \<and>
         run_cell be (elapsed ''sequential'' ''Clock'') ''Clock'' sequential_sequence b2 = (c3, b3) \<and>
         run_cell be (elapsed ''random'' ''FIFO'') ''FIFO'' (random_sequence rnd) b3 = (c4, b4) \<and>
         run_cell be (elapsed ''random'' ''LRU'') ''LRU'' (random_sequence rnd) b4 = (c5, b5) \<and>
         run_cell be (elapsed ''random'' ''Clock'') ''Clock'' (random_sequence rnd) b5 = (c6, b6) \<and>
         run_cell be (elapsed ''locality'' ''FIFO'') ''FIFO'' (locality_sequence rnd) b6 = (c7, b7) \<and>
         run_cell be (elapsed ''locality'' ''LRU'') ''LRU'' (locality_sequence rnd) b7 = (c8, b8) \<and>
         run_cell be (elapsed ''locality'' ''Clock'') ''Clock'' (locality_sequence rnd) b8 = (c9, b9) \<and>
         runBenchmark be rnd elapsed fs b =
           (fs\<lparr>benchmarkResults := Some
                 [(''sequential'', [(''FIFO'', c1), (''LRU'', c2), (''Clock'', c3)]),
                  (''random'', [(''FIFO'', c4), (''LRU'', c5), (''Clock'', c6)]),
                  (''locality'', [(''FIFO'', c7), (''LRU'', c8), (''Clock'', c9)])],
               showBenchmark := True, isBenchmarkRunning := False\<rparr>, b9))) \<and>
   (\<forall>(be :: 'b backend) rnd elapsed fs b seen.
      connectionStatus fs = ''connected'' \<longrightarrow>
      benchmarkResults (fst (runBenchmark (logged be) rnd elapsed fs (b, seen))) =
        benchmarkResults (fst (runBenchmark be rnd elapsed fs b)) \<and>
      (\<exists>xs. snd (snd (runBenchmark (logged be) rnd elapsed fs (b, seen))) = seen @ xs \<and>
            length (filter (\<lambda>r. r = PostReset) xs) = 9)) \<and>
   (\<forall>rnd elapsed fs.
      connectionStatus fs = ''connected'' \<longrightarrow>
      benchmarkResults (fst (runBenchmark rejecting_recorder rnd elapsed fs [])) =
        Some (map (\<lambda>ps. (fst ps, map (\<lambda>a. (a, \<lparr>cell_page_faults = 0, cell_hit_ratio = 0,
                        cell_execution_time = 0, cell_error = Some ''rejected''\<rparr>)) algorithms))
               (benchmarkSequences rnd)))"
proof -
  have 1: "run_cell be elapsed algorithm (pre @ (pid, addr) # post) b =
            (\<lparr>cell_page_faults = 0, cell_hit_ratio = 0, cell_execution_time = 0,
              cell_error = Some msg\<rparr>, bk')"
    if h: "be b PostReset = (Inr r1, b1) \<and> be b1 (PostCreateProcess (Num 8)) = (Inr r2, b2) \<and>
      be b2 (PostSetAlgorithm algorithm) = (Inr r3, b3) \<and>
      replay_requests be pre b3 = (Inr (), bk) \<and>
      be bk (PostTranslateAddress (parseInt_number pid) (parseInt_number addr)) = (Inl msg, bk')"
    for be :: "'b backend" and elapsed algorithm b b1 b2 b3 r1 r2 r3 pre pid addr post bk bk' msg
  proof -
    from h have "replay_requests be (pre @ (pid, addr) # post) b3 = (Inl msg, bk')"
      by (simp add: replay_requests_append)
    with h show ?thesis by (simp add: run_cell_def try_cell_def)
  qed
  have 2: "run_cell be elapsed algorithm sequence b =
            (\<lparr>cell_page_faults = 0, cell_hit_ratio = 0, cell_execution_time = 0,
              cell_error = Some msg\<rparr>, b')"
    if "try_cell be elapsed algorithm sequence b = (Inl msg, b')"
    for be :: "'b backend" and elapsed algorithm sequence b msg b'
    using that by (simp add: run_cell_def)
  have 3: "run_cell be elapsed algorithm sequence b =
            (\<lparr>cell_page_faults = 0, cell_hit_ratio = 0, cell_execution_time = 0,
              cell_error = Some msg\<rparr>, b')"
    if "be b PostReset = (Inl msg, b') \<or>
      be b PostReset = (Inr r1, b1) \<and> be b1 (PostCreateProcess (Num 8)) = (Inl msg, b') \<or>
      be b PostReset = (Inr r1, b1) \<and> be b1 (PostCreateProcess (Num 8)) = (Inr r2, b2) \<and>
        be b2 (PostSetAlgorithm algorithm) = (Inl msg, b') \<or>
      be b PostReset = (Inr r1, b1) \<and> be b1 (PostCreateProcess (Num 8)) = (Inr r2, b2) \<and>
        be b2 (PostSetAlgorithm algorithm) = (Inr r3, b3) \<and>
        replay_requests be sequence b3 = (Inr (), b4) \<and> be b4 GetMemoryState = (Inl msg, b')"
    for be :: "'b backend" and elapsed algorithm sequence b b1 b2 b3 b4 r1 r2 r3 msg b'
    using that by (elim disjE conjE) (simp_all add: run_cell_def try_cell_def)
  have 5: "benchmarkResults (fst (runBenchmark rejecting_recorder rnd elapsed fs [])) =
        Some (map (\<lambda>ps. (fst ps, map (\<lambda>a. (a, \<lparr>cell_page_faults = 0, cell_hit_ratio = 0,
                        cell_execution_time = 0, cell_error = Some ''rejected''\<rparr>)) algorithms))
               (benchmarkSequences rnd))"
    if cn: "connectionStatus fs = ''connected''" for rnd elapsed and fs :: app_state
  proof -
    have "benchmarkResults (fst (runBenchmark rejecting_recorder rnd elapsed fs [])) =
        Some (fst (run_patterns rejecting_recorder elapsed (benchmarkSequences rnd) []))"
      using cn by (simp add: runBenchmark_def split: prod.splits)
    then show ?thesis using rejecting_benchmark[of elapsed rnd] by simp
  qed
  show ?thesis
    apply (intro conjI allI impI)
          apply (erule 1)
         apply (erule 2)
        apply (erule 3)
       apply (erule runBenchmark_cells)
      apply (drule runBenchmark_logged, erule conjunct1)
     apply (drule runBenchmark_logged, erule conjunct2)
    apply (erule 5)
    done
qed

theorem benchmark_isolates_failures_witness:
  "run_cell (api True) 5 ''FIFO'' ([(1, 0)] @ (1, 32768) # [(1, 4096)]) (init_state NUM_FRAMES) =
     (\<lparr>cell_page_faults = 0, cell_hit_ratio = 0, cell_execution_time = 0,
       cell_error = Some ''InvalidPage''\<rparr>,
      access None (set_algorithm (create_all (init_state NUM_FRAMES) [8]) FIFO) (1, 0)) \<and>
   (\<exists>c2 c3 c4 c5 c6 c7 c8 c9.
      benchmarkResults (fst (runBenchmark (api True) (\<lambda>i. 0) (\<lambda>p a. 1)
         ((initial_app_state 0)\<lparr>connectionStatus := ''connected''\<rparr>) (init_state NUM_FRAMES)))
        = Some [(''sequential'',
                   [(''FIFO'', \<lparr>cell_page_faults = 0, cell_hit_ratio = 0, cell_execution_time = 0,
                                 cell_error = Some ''InvalidPage''\<rparr>),
                    (''LRU'', c2), (''Clock'', c3)]),
                (''random'', [(''FIFO'', c4), (''LRU'', c5), (''Clock'', c6)]),
                (''locality'', [(''FIFO'', c7), (''LRU'', c8), (''Clock'', c9)])])"
proof -
  define b where "b = init_state NUM_FRAMES"
  define b2 where "b2 = create_all (init_state NUM_FRAMES) [8]"
  define b3 where "b3 = set_algorithm b2 FIFO"
  define bk where "bk = access None b3 (1, 0)"
  define F where "F = (initial_app_state 0)\<lparr>connectionStatus := ''connected''\<rparr>"
  obtain s' where c: "create_process (init_state NUM_FRAMES) 8 = Inr (1, s')"
    using create_process_fresh[of 8 NUM_FRAMES] by auto
  then have b2': "b2 = s'" by (simp add: b2_def)
  have h1: "api True b PostReset =
      (Inr (no_data\<lparr>resp_success := True, resp_memory_state := Some (memory_state (reset b))\<rparr>),
       init_state NUM_FRAMES)"
    by (simp add: ok_state_def reset_def)
  have h2: "api True (init_state NUM_FRAMES) (PostCreateProcess (Num 8)) =
      (Inr (no_data\<lparr>resp_success := True, resp_memory_state := Some (memory_state b2)\<rparr>), b2)"
    by (simp add: ok_state_def c b2')
  have h3: "api True b2 (PostSetAlgorithm ''FIFO'') =
      (Inr (no_data\<lparr>resp_success := True, resp_memory_state := Some (memory_state b3)\<rparr>), b3)"
    by (simp add: ok_state_def parse_algorithm_def b3_def)
  have "\<not> isl (translate_address (set_algorithm (create_all (init_state NUM_FRAMES) [8]) FIFO)
              None 1 0)"
    by code_simp
  then obtain r0 s0 where "translate_address b3 None 1 0 = Inr (r0, s0)"
    unfolding b3_def b2_def by (metis sum.collapse(2) surj_pair)
  then have t0: "\<exists>r. translate_address b3 None 1 0 = Inr (r, bk)"
    by (simp add: bk_def access_def)
  have h4: "replay_requests (api True) [(1, 0)] b3 = (Inr (), bk)"
    using t0 by (auto simp: parseInt_number_def to_number_def)
  have t1: "translate_address bk None 1 32768 = Inl InvalidPage"
    unfolding bk_def b3_def b2_def by code_simp
  have h5: "api True bk (PostTranslateAddress (parseInt_number 1) (parseInt_number 32768)) =
      (Inl ''InvalidPage'', bk)"
    using t1 by (simp add: parseInt_number_def to_number_def failure_def)
  have cn: "connectionStatus F = ''connected''" by (simp add: F_def)
  note T = benchmark_isolates_failures[where 'b = vm_state]
  from T have T1: "\<forall>(be :: vm_state backend) elapsed algorithm b b1 b2 b3 r1 r2 r3 pre pid addr post bk bk' msg.
      be b PostReset = (Inr r1, b1) \<and> be b1 (PostCreateProcess (Num 8)) = (Inr r2, b2) \<and>
      be b2 (PostSetAlgorithm algorithm) = (Inr r3, b3) \<and>
      replay_requests be pre b3 = (Inr (), bk) \<and>
      be bk (PostTranslateAddress (parseInt_number pid) (parseInt_number addr)) = (Inl msg, bk')
      \<longrightarrow> run_cell be elapsed algorithm (pre @ (pid, addr) # post) b =
            (\<lparr>cell_page_faults = 0, cell_hit_ratio = 0, cell_execution_time = 0,
              cell_error = Some msg\<rparr>, bk')"
    by (elim conjE) assumption
  from T have T3: "\<forall>(be :: vm_state backend) rnd elapsed fs b.
      connectionStatus fs = ''connected'' \<longrightarrow>
      (\<exists>c1 c2 c3 c4 c5 c6 c7 c8 c9 b1 b2 b3 b4 b5 b6 b7 b8 b9.
         run_cell be (elapsed ''sequential'' ''FIFO'') ''FIFO'' sequential_sequence b = (c1, b1) \<and>
         run_cell be (elapsed ''sequential'' ''LRU'') ''LRU'' sequential_sequence b1 = (c2, b2) \<and>
         run_cell be (elapsed ''sequential'' ''Clock'') ''Clock'' sequential_sequence b2 = (c3, b3) \<and>
         run_cell be (elapsed ''random'' ''FIFO'') ''FIFO'' (random_sequence rnd) b3 = (c4, b4) \<and>
         run_cell be (elapsed ''random'' ''LRU'') ''LRU'' (random_sequence rnd) b4 = (c5, b5) \<and>
         run_cell be (elapsed ''random'' ''Clock'') ''Clock'' (random_sequence rnd) b5 = (c6, b6) \<and>
         run_cell be (elapsed ''locality'' ''FIFO'') ''FIFO'' (locality_sequence rnd) b6 = (c7, b7) \<and>
         run_cell be (elapsed ''locality'' ''LRU'') ''LRU'' (locality_sequence rnd) b7 = (c8, b8) \<and>
         run_cell be (elapsed ''locality'' ''Clock'') ''Clock'' (locality_sequence rnd) b8 = (c9, b9) \<and>
         runBenchmark be rnd elapsed fs b =
           (fs\<lparr>benchmarkResults := Some
                 [(''sequential'', [(''FIFO'', c1), (''LRU'', c2), (''Clock'', c3)]),
                  (''random'', [(''FIFO'', c4), (''LRU'', c5), (''Clock'', c6)]),
                  (''locality'', [(''FIFO'', c7), (''LRU'', c8), (''Clock'', c9)])],
               showBenchmark := True, isBenchmarkRunning := False\<rparr>, b9))"
    by (elim conjE) assumption
  from T1[rule_format, of "api True" b _ "init_state NUM_FRAMES" _ b2 "''FIFO''" _ b3
          "[(1, 0)]" bk 1 32768 "''InvalidPage''" bk 5 "[(1, 4096)]"] h1 h2 h3 h4 h5
  have 1: "run_cell (api True) 5 ''FIFO'' ([(1, 0)] @ (1, 32768) # [(1, 4096)]) b =
     (\<lparr>cell_page_faults = 0, cell_hit_ratio = 0, cell_execution_time = 0,
       cell_error = Some ''InvalidPage''\<rparr>, bk)"
    by blast
  from T3[rule_format, OF cn, of "api True" "\<lambda>p a. 1" b "\<lambda>i. 0"]
  obtain c1 c2 c3 c4 c5 c6 c7 c8 c9 b1 b9 where
    c1: "run_cell (api True) 1 ''FIFO'' sequential_sequence b = (c1, b1)"
    and rb: "runBenchmark (api True) (\<lambda>i. 0) (\<lambda>p a. 1) F b =
           (F\<lparr>benchmarkResults := Some
                 [(''sequential'', [(''FIFO'', c1), (''LRU'', c2), (''Clock'', c3)]),
                  (''random'', [(''FIFO'', c4), (''LRU'', c5), (''Clock'', c6)]),
                  (''locality'', [(''FIFO'', c7), (''LRU'', c8), (''Clock'', c9)])],
               showBenchmark := True, isBenchmarkRunning := False\<rparr>, b9)"
    by (elim exE conjE)
  from c1 sequential_cell_rejecting[of 1 FIFO b]
  have c1': "c1 = \<lparr>cell_page_faults = 0, cell_hit_ratio = 0, cell_execution_time = 0,
                    cell_error = Some ''InvalidPage''\<rparr>"
    by simp
  from rb have "benchmarkResults (fst (runBenchmark (api True) (\<lambda>i. 0) (\<lambda>p a. 1) F b)) =
      Some [(''sequential'', [(''FIFO'', c1), (''LRU'', c2), (''Clock'', c3)]),
            (''random'', [(''FIFO'', c4), (''LRU'', c5), (''Clock'', c6)]),
            (''locality'', [(''FIFO'', c7), (''LRU'', c8), (''Clock'', c9)])]"
    by simp
  then have 2: "\<exists>c2 c3 c4 c5 c6 c7 c8 c9.
      benchmarkResults (fst (runBenchmark (api True) (\<lambda>i. 0) (\<lambda>p a. 1) F b))
        = Some [(''sequential'',
                   [(''FIFO'', \<lparr>cell_page_faults = 0, cell_hit_ratio = 0, cell_execution_time = 0,
                                 cell_error = Some ''InvalidPage''\<rparr>),
                    (''LRU'', c2), (''Clock'', c3)]),
                (''random'', [(''FIFO'', c4), (''LRU'', c5), (''Clock'', c6)]),
                (''locality'', [(''FIFO'', c7), (''LRU'', c8), (''Clock'', c9)])]"
    unfolding c1' by blast
  from 1 2 show ?thesis unfolding b_def bk_def b3_def b2_def F_def by (intro conjI)
qed

subsection \<open>The sequential pattern leaves the process's range\<close>

lemma take_sequential: "take 8 sequential_sequence = map (\<lambda>i. (1, i * 4096)) [0..<8]"
  by (simp add: sequential_split)

lemma recorder_sequential_cell:
  "snd (run_cell recorder elapsed algorithm sequential_sequence seen) =
     seen @ [PostReset, PostCreateProcess (Num 8), PostSetAlgorithm algorithm]
          @ map (\<lambda>i. PostTranslateAddress (Num 1) (Num (int i * 4096))) [0..<20]
          @ [GetMemoryState]"
proof -
  have m: "map (\<lambda>a. PostTranslateAddress (parseInt_number (fst a)) (parseInt_number (snd a)))
             sequential_sequence
           = map (\<lambda>i. PostTranslateAddress (Num 1) (Num (int i * 4096))) [0..<20]"
    unfolding sequential_sequence_def map_map
    by (rule map_cong) (simp_all add: parseInt_number_def to_number_def)
  have "snd (run_cell recorder elapsed algorithm sequential_sequence seen) =
      snd (try_cell recorder elapsed algorithm sequential_sequence seen)"
    by (simp add: run_cell_def split: prod.splits sum.splits)
  then show ?thesis unfolding recorder_cell m .
qed

lemma sequential_row_rejecting:
  assumes cn: "connectionStatus fs = ''connected''"
  shows "\<exists>results. benchmarkResults (fst (runBenchmark (api True) rnd elapsed fs s)) = Some results \<and>
           map_of results ''sequential'' =
             Some (map (\<lambda>a. (a, \<lparr>cell_page_faults = 0, cell_hit_ratio = 0,
                      cell_execution_time = 0, cell_error = Some ''InvalidPage''\<rparr>))
                   [''FIFO'', ''LRU'', ''Clock''])"
proof -
  let ?f = "\<lparr>cell_page_faults = 0, cell_hit_ratio = 0, cell_execution_time = 0,
             cell_error = Some ''InvalidPage''\<rparr>"
  from runBenchmark_cells[OF cn, of "api True" elapsed s rnd]
  obtain c1 c2 c3 c4 c5 c6 c7 c8 c9 b1 b2 b3 b9 where
    1: "run_cell (api True) (elapsed ''sequential'' ''FIFO'') ''FIFO'' sequential_sequence s = (c1, b1)"
    and 2: "run_cell (api True) (elapsed ''sequential'' ''LRU'') ''LRU'' sequential_sequence b1 = (c2, b2)"
    and 3: "run_cell (api True) (elapsed ''sequential'' ''Clock'') ''Clock'' sequential_sequence b2 = (c3, b3)"
    and rb: "runBenchmark (api True) rnd elapsed fs s =
           (fs\<lparr>benchmarkResults := Some
                 [(''sequential'', [(''FIFO'', c1), (''LRU'', c2), (''Clock'', c3)]),
                  (''random'', [(''FIFO'', c4), (''LRU'', c5), (''Clock'', c6)]),
                  (''locality'', [(''FIFO'', c7), (''LRU'', c8), (''Clock'', c9)])],
               showBenchmark := True, isBenchmarkRunning := False\<rparr>, b9)"
    by (elim exE conjE)
  from 1 sequential_cell_rejecting[of "elapsed ''sequential'' ''FIFO''" FIFO s] have c1: "c1 = ?f" by simp
  from 2 sequential_cell_rejecting[of "elapsed ''sequential'' ''LRU''" LRU b1] have c2: "c2 = ?f" by simp
  from 3 sequential_cell_rejecting[of "elapsed ''sequential'' ''Clock''" Clock b2] have c3: "c3 = ?f" by simp
  show ?thesis using rb c1 c2 c3 by simp
qed

text \<open>
  C8. The sequential pattern of \<^verbatim>\<open>runBenchmark\<close> is the twenty accesses \<open>(1, i * 4096)\<close>,
  \<open>i = 0..19\<close>, and the \<open>i\<close>-th targets page \<open>i\<close>. A cell of the pattern sends one
  \<^verbatim>\<open>create_process\<close> request, for 8 pages, and then these twenty accesses of process 1.
  Twelve of the twenty accesses, those with \<open>i\<close> from 8 to 19, target a page outside the
  range of the 8 pages: in any state in which process 1 has 8 pages the translator rejects
  them with \<open>InvalidPage\<close>, and so does the endpoint at every point of a cell's replay. So
  against the modelled endpoints a cell of the sequential pattern translates its first
  eight accesses, one page fault each, and no more: when the rejection is an HTTP error
  the ninth request throws and the cell is recorded as failed with \<open>InvalidPage\<close>, for
  every policy, and the sequential row of the matrix consists of three such cells; when the
  failure travels in the response body the cell records the 8 faults of the 8 accesses
  that were translated.
\<close>

theorem sequential_benchmark_out_of_range:
  "(\<forall>rnd. map_of (benchmarkSequences rnd) ''sequential'' = Some sequential_sequence) \<and>
   length sequential_sequence = 20 \<and>
   (\<forall>i < 20. sequential_sequence ! i = (1, i * 4096) \<and>
      snd (sequential_sequence ! i) div PAGE_SIZE = i) \<and>
   length (filter (\<lambda>a. 8 \<le> snd a div PAGE_SIZE) sequential_sequence) = 12 \<and>
   (\<forall>elapsed algorithm seen.
      snd (run_cell recorder elapsed algorithm sequential_sequence seen) =
        seen @ [PostReset, PostCreateProcess (Num 8), PostSetAlgorithm algorithm]
             @ map (\<lambda>i. PostTranslateAddress (Num 1) (Num (int i * 4096))) [0..<20]
             @ [GetMemoryState]) \<and>
   procs (create_all (init_state NUM_FRAMES) [8]) =
     [(1, \<lparr>pages_needed = 8, page_table = replicate 8 cold_pte\<rparr>)] \<and>
   (\<forall>i s fut pr. 8 \<le> i \<and> i < 20 \<and> map_of (procs s) 1 = Some pr \<and> pages_needed pr = 8 \<longrightarrow>
      translate_address s fut (fst (sequential_sequence ! i)) (snd (sequential_sequence ! i))
        = Inl InvalidPage) \<and>
   (\<forall>i rj a pre. 8 \<le> i \<and> i < 20 \<longrightarrow>
      api rj (snd (replay_requests (api rj) pre
                    (set_algorithm (create_all (init_state NUM_FRAMES) [8]) a)))
        (PostTranslateAddress (parseInt_number (fst (sequential_sequence ! i)))
                              (parseInt_number (snd (sequential_sequence ! i))))
      = failure rj InvalidPage
          (snd (replay_requests (api rj) pre
                    (set_algorithm (create_all (init_state NUM_FRAMES) [8]) a)))) \<and>
   (\<forall>elapsed x s.
      run_cell (api True) elapsed (algorithm_name x) sequential_sequence s =
        (\<lparr>cell_page_faults = 0, cell_hit_ratio = 0, cell_execution_time = 0,
          cell_error = Some ''InvalidPage''\<rparr>,
         replay None (set_algorithm (create_all (init_state NUM_FRAMES) [8]) x)
           (take 8 sequential_sequence))) \<and>
   (\<forall>elapsed x s.
      run_cell (api False) elapsed (algorithm_name x) sequential_sequence s =
        (\<lparr>cell_page_faults = 8, cell_hit_ratio = 0, cell_execution_time = elapsed,
          cell_error = None\<rparr>,
         replay None (set_algorithm (create_all (init_state NUM_FRAMES) [8]) x)
           (take 8 sequential_sequence))) \<and>
   (\<forall>x. memory_accesses (stats (replay None
            (set_algorithm (create_all (init_state NUM_FRAMES) [8]) x)
            (take 8 sequential_sequence))) = 8) \<and>
   (\<forall>rnd elapsed fs s.
      connectionStatus fs = ''connected'' \<longrightarrow>
      (\<exists>results. benchmarkResults (fst (runBenchmark (api True) rnd elapsed fs s)) = Some results \<and>
         map_of results ''sequential'' =
           Some (map (\<lambda>a. (a, \<lparr>cell_page_faults = 0, cell_hit_ratio = 0,
                    cell_execution_time = 0, cell_error = Some ''InvalidPage''\<rparr>))
                 [''FIFO'', ''LRU'', ''Clock''])))"
proof -
  have nth: "sequential_sequence ! i = (1, i * 4096)" if "i < 20" for i
    using that by (simp add: sequential_sequence_def)
  have 1: "\<forall>rnd. map_of (benchmarkSequences rnd) ''sequential'' = Some sequential_sequence"
    by (simp add: benchmarkSequences_def)
  have 2: "length sequential_sequence = 20" by (simp add: sequential_sequence_def)
  have 3: "\<forall>i < 20. sequential_sequence ! i = (1, i * 4096) \<and>
      snd (sequential_sequence ! i) div PAGE_SIZE = i"
    using nth by (simp add: PAGE_SIZE_def)
  have split: "[0..<20] = [0..<8] @ [8..<20]"
    using upt_add_eq_append[of 0 8 12] by simp
  have "filter (\<lambda>a. 8 \<le> snd a div PAGE_SIZE) sequential_sequence
          = map (\<lambda>i. (1, i * 4096)) (filter (\<lambda>i. 8 \<le> i) [0..<20])"
    by (simp add: sequential_sequence_def filter_map comp_def PAGE_SIZE_def)
  also have "filter (\<lambda>i. 8 \<le> i) [0..<20] = [8..<20]"
    unfolding split by simp
  finally have 4: "length (filter (\<lambda>a. 8 \<le> snd a div PAGE_SIZE) sequential_sequence) = 12"
    by simp
  have 6: "translate_address s fut (fst (sequential_sequence ! i)) (snd (sequential_sequence ! i))
        = Inl InvalidPage"
    if "8 \<le> i \<and> i < 20 \<and> map_of (procs s) 1 = Some pr \<and> pages_needed pr = 8" for i s fut pr
    using that nth[of i] by (simp add: translate_address_def PAGE_SIZE_def)
  have 7: "api rj (snd (replay_requests (api rj) pre
                    (set_algorithm (create_all (init_state NUM_FRAMES) [8]) a)))
        (PostTranslateAddress (parseInt_number (fst (sequential_sequence ! i)))
                              (parseInt_number (snd (sequential_sequence ! i))))
      = failure rj InvalidPage
          (snd (replay_requests (api rj) pre
                    (set_algorithm (create_all (init_state NUM_FRAMES) [8]) a)))"
    if i: "8 \<le> i \<and> i < 20" for i rj a pre
  proof -
    let ?s0 = "set_algorithm (create_all (init_state NUM_FRAMES) [8]) a"
    let ?b = "snd (replay_requests (api rj) pre ?s0)"
    have "map_option pages_needed (map_of (procs ?b) 1) = map_option pages_needed (map_of (procs ?s0) 1)"
      by (rule replay_requests_pages)
    also have "\<dots> = Some 8"
      using benchmark_process by (simp add: set_algorithm_def del: create_all.simps)
    finally obtain pr where pr: "map_of (procs ?b) 1 = Some pr" "pages_needed pr = 8" by auto
    from 6[of i ?b pr None] i pr nth[of i]
    have t: "translate_address ?b None 1 (i * 4096) = Inl InvalidPage" by simp
    from i have "int (i * 4096) \<le> 2 ^ 53" by simp
    then have n: "parseInt_number (i * 4096) = Num (int (i * 4096))"
      by (simp add: parseInt_number_def to_number_def)
    have n1: "parseInt_number 1 = Num 1" by (simp add: parseInt_number_def to_number_def)
    have nn: "nat (int i * 4096) = i * 4096" by (simp add: nat_mult_distrib)
    show ?thesis using i nth[of i] t n n1 nn by (simp del: create_all.simps)
  qed
  show ?thesis
    apply (intro conjI)
              apply (rule 1)
             apply (rule 2)
            apply (rule 3)
           apply (rule 4)
          apply (intro allI, rule recorder_sequential_cell)
         apply (rule benchmark_process)
        apply (intro allI impI, erule 6)
       apply (intro allI impI, erule 7)
      apply (intro allI, unfold take_sequential, rule sequential_cell_rejecting)
     apply (intro allI, rule sequential_cell_accepting)
    apply (intro allI, rule sequential_replay)
    apply (intro allI impI, erule sequential_row_rejecting)
    done
qed

theorem sequential_benchmark_out_of_range_witness:
  "sequential_sequence ! 8 = (1, 32768) \<and>
   map_of (procs (create_all (init_state NUM_FRAMES) [8])) 1 =
     Some \<lparr>pages_needed = 8, page_table = replicate 8 cold_pte\<rparr> \<and>
   translate_address (create_all (init_state NUM_FRAMES) [8]) None
     (fst (sequential_sequence ! 8)) (snd (sequential_sequence ! 8)) = Inl InvalidPage \<and>
   translate_address (create_all (init_state NUM_FRAMES) [8]) None
     (fst (sequential_sequence ! 19)) (snd (sequential_sequence ! 19)) = Inl InvalidPage \<and>
   (\<exists>results.
      benchmarkResults (fst (runBenchmark (api True) (\<lambda>i. 0) (\<lambda>p a. 1)
         ((initial_app_state 0)\<lparr>connectionStatus := ''connected''\<rparr>) (init_state NUM_FRAMES)))
        = Some results \<and>
      map_of results ''sequential'' =
        Some (map (\<lambda>a. (a, \<lparr>cell_page_faults = 0, cell_hit_ratio = 0,
                 cell_execution_time = 0, cell_error = Some ''InvalidPage''\<rparr>))
              [''FIFO'', ''LRU'', ''Clock'']))"
proof -
  define S where "S = create_all (init_state NUM_FRAMES) [8]"
  define P where "P = \<lparr>pages_needed = 8, page_table = replicate 8 cold_pte\<rparr>"
  define F where "F = (initial_app_state 0)\<lparr>connectionStatus := ''connected''\<rparr>"
  note T = sequential_benchmark_out_of_range
  from T have T3: "\<forall>i < 20. sequential_sequence ! i = (1, i * 4096) \<and>
      snd (sequential_sequence ! i) div PAGE_SIZE = i"
    by (elim conjE) assumption
  from T have T5: "procs (create_all (init_state NUM_FRAMES) [8]) =
     [(1, \<lparr>pages_needed = 8, page_table = replicate 8 cold_pte\<rparr>)]"
    by (elim conjE) assumption
  from T have T6: "\<forall>i s fut pr. 8 \<le> i \<and> i < 20 \<and> map_of (procs s) 1 = Some pr \<and> pages_needed pr = 8 \<longrightarrow>
      translate_address s fut (fst (sequential_sequence ! i)) (snd (sequential_sequence ! i))
        = Inl InvalidPage"
    by (elim conjE) assumption
  from T have T11: "\<forall>rnd elapsed fs s.
      connectionStatus fs = ''connected'' \<longrightarrow>
      (\<exists>results. benchmarkResults (fst (runBenchmark (api True) rnd elapsed fs s)) = Some results \<and>
         map_of results ''sequential'' =
           Some (map (\<lambda>a. (a, \<lparr>cell_page_faults = 0, cell_hit_ratio = 0,
                    cell_execution_time = 0, cell_error = Some ''InvalidPage''\<rparr>))
                 [''FIFO'', ''LRU'', ''Clock'']))"
    by (elim conjE) assumption
  from T3 have 1: "sequential_sequence ! 8 = (1, 32768)" by simp
  from T5 have 2: "map_of (procs S) 1 = Some P" by (simp add: S_def P_def)
  have 3: "pages_needed P = 8" by (simp add: P_def)
  from T6[rule_format, of 8 S P None] 2 3
  have 4: "translate_address S None (fst (sequential_sequence ! 8)) (snd (sequential_sequence ! 8))
      = Inl InvalidPage" by simp
  from T6[rule_format, of 19 S P None] 2 3
  have 5: "translate_address S None (fst (sequential_sequence ! 19)) (snd (sequential_sequence ! 19))
      = Inl InvalidPage" by simp
  have cn: "connectionStatus F = ''connected''" by (simp add: F_def)
  from T11[rule_format, OF cn, of "\<lambda>i. 0" "\<lambda>p a. 1" "init_state NUM_FRAMES"]
  have 6: "\<exists>results.
      benchmarkResults (fst (runBenchmark (api True) (\<lambda>i. 0) (\<lambda>p a. 1) F (init_state NUM_FRAMES)))
        = Some results \<and>
      map_of results ''sequential'' =
        Some (map (\<lambda>a. (a, \<lparr>cell_page_faults = 0, cell_hit_ratio = 0,
                 cell_execution_time = 0, cell_error = Some ''InvalidPage''\<rparr>))
              [''FIFO'', ''LRU'', ''Clock''])" .
  from 1 2 4 5 6 show ?thesis unfolding S_def P_def F_def by (intro conjI)
qed

subsection \<open>The policy runs share no state\<close>












subsection \<open>The virtual address is read in base 16\<close>

lemma fold_digits:
  "fold (\<lambda>c acc. acc * radix + (case digit_value c of None \<Rightarrow> 0 | Some d \<Rightarrow> d)) z acc
     = acc * radix ^ length z + positional_value radix z"
  by (induction z arbitrary: acc) (simp_all add: algebra_simps)

lemma digits_value_positional: "digits_value radix z = positional_value radix z"
  by (simp add: digits_value_def fold_digits)

lemma hex_digit_not_white: "is_digit 16 c \<Longrightarrow> \<not> is_white c"
  by (auto simp: is_digit_def is_white_def digit_value_def Let_def split: if_splits option.splits)

lemma parseInt_16:
  "parseInt str 16 =
     (let s0 = dropWhile is_white str;
          sign = (if take 1 s0 = js_str ''-'' then - 1 else 1 :: int);
          s1 = (if take 1 s0 = js_str ''-'' \<or> take 1 s0 = js_str ''+'' then drop 1 s0 else s0);
          prefixed = (take 2 s1 = js_str ''0x'' \<or> take 2 s1 = js_str ''0X'');
          s2 = (if prefixed then drop 2 s1 else s1);
          z = takeWhile (is_digit 16) s2
      in if z = [] then NaN else to_number (sign * int (digits_value 16 z)))"
  by (simp add: parseInt_def Let_def)

lemma parseInt_shape:
  assumes ws: "\<forall>c \<in> set ws. is_white c"
    and nw: "sg @ px @ ds @ rest = [] \<or> \<not> is_white (hd (sg @ px @ ds @ rest))"
    and sg: "sg = js_str ''-'' \<or> sg = js_str ''+'' \<or>
             sg = [] \<and> take 1 (px @ ds @ rest) \<noteq> js_str ''-'' \<and> take 1 (px @ ds @ rest) \<noteq> js_str ''+''"
    and px: "px = js_str ''0x'' \<or> px = js_str ''0X'' \<or>
             px = [] \<and> take 2 (ds @ rest) \<noteq> js_str ''0x'' \<and> take 2 (ds @ rest) \<noteq> js_str ''0X''"
    and ds: "\<forall>c \<in> set ds. is_digit 16 c"
    and rest: "rest = [] \<or> \<not> is_digit 16 (hd rest)"
  shows "parseInt (ws @ sg @ px @ ds @ rest) 16 =
     (if ds = [] then NaN
      else to_number ((if sg = js_str ''-'' then - 1 else 1) * int (positional_value 16 ds)))"
proof -
  let ?B = "sg @ px @ ds @ rest"
  let ?C = "px @ ds @ rest"
  let ?D = "ds @ rest"
  have "dropWhile is_white (ws @ ?B) = dropWhile is_white ?B"
    using ws by (intro dropWhile_append2) simp
  also have "\<dots> = ?B" using nw by (cases ?B) auto
  finally have s0: "dropWhile is_white (ws @ ?B) = ?B" .
  have sign: "(if take 1 ?B = js_str ''-'' then - 1 else 1 :: int) =
              (if sg = js_str ''-'' then - 1 else 1)"
    using sg by (auto simp: js_str_def)
  have s1: "(if take 1 ?B = js_str ''-'' \<or> take 1 ?B = js_str ''+'' then drop 1 ?B else ?B) = ?C"
    using sg by (auto simp: js_str_def)
  have pre: "(take 2 ?C = js_str ''0x'' \<or> take 2 ?C = js_str ''0X'') \<longleftrightarrow> px \<noteq> []"
    using px by (auto simp: js_str_def)
  have s2: "(if px \<noteq> [] then drop 2 ?C else ?C) = ?D"
    using px by (auto simp: js_str_def)
  have "takeWhile (is_digit 16) ?D = ds @ takeWhile (is_digit 16) rest"
    using ds by (intro takeWhile_append2) simp
  also have "takeWhile (is_digit 16) rest = []" using rest by (cases rest) auto
  finally have z: "takeWhile (is_digit 16) ?D = ds" by simp
  have "parseInt (ws @ ?B) 16 =
      (if ds = [] then NaN
       else to_number ((if sg = js_str ''-'' then - 1 else 1) * int (digits_value 16 ds)))"
    unfolding parseInt_16 Let_def s0 sign s1 pre s2 z by simp
  then show ?thesis by (simp add: digits_value_positional)
qed

lemma parseInt_shape_total:
  "\<exists>ws sg px ds rest. str = ws @ sg @ px @ ds @ rest \<and>
     (\<forall>c \<in> set ws. is_white c) \<and>
     (sg @ px @ ds @ rest = [] \<or> \<not> is_white (hd (sg @ px @ ds @ rest))) \<and>
     (sg = js_str ''-'' \<or> sg = js_str ''+'' \<or>
        sg = [] \<and> take 1 (px @ ds @ rest) \<noteq> js_str ''-'' \<and> take 1 (px @ ds @ rest) \<noteq> js_str ''+'') \<and>
     (px = js_str ''0x'' \<or> px = js_str ''0X'' \<or>
        px = [] \<and> take 2 (ds @ rest) \<noteq> js_str ''0x'' \<and> take 2 (ds @ rest) \<noteq> js_str ''0X'') \<and>
     (\<forall>c \<in> set ds. is_digit 16 c) \<and>
     (rest = [] \<or> \<not> is_digit 16 (hd rest))"
proof -
  define ws where "ws = takeWhile is_white str"
  define s0 where "s0 = dropWhile is_white str"
  define sg where "sg = (if take 1 s0 = js_str ''-'' \<or> take 1 s0 = js_str ''+'' then take 1 s0 else [])"
  define s1 where "s1 = drop (length sg) s0"
  define px where "px = (if take 2 s1 = js_str ''0x'' \<or> take 2 s1 = js_str ''0X'' then take 2 s1 else [])"
  define s2 where "s2 = drop (length px) s1"
  define ds where "ds = takeWhile (is_digit 16) s2"
  define rest where "rest = dropWhile (is_digit 16) s2"
  have e2: "s2 = ds @ rest" by (simp add: ds_def rest_def)
  have "px = [] \<or> px = take 2 s1 \<and> length px = 2"
    by (auto simp: px_def js_str_def)
  then have e1: "s1 = px @ s2"
    unfolding s2_def by auto
  have "sg = [] \<or> sg = take 1 s0 \<and> length sg = 1"
    by (auto simp: sg_def js_str_def)
  then have e0: "s0 = sg @ s1"
    unfolding s1_def by auto
  have e: "str = ws @ s0" by (simp add: ws_def s0_def)
  have 1: "\<forall>c \<in> set ws. is_white c" unfolding ws_def by (auto dest: set_takeWhileD)
  have 2: "s0 = [] \<or> \<not> is_white (hd s0)" unfolding s0_def using hd_dropWhile[of is_white str] by blast
  have 3: "sg = js_str ''-'' \<or> sg = js_str ''+'' \<or>
        sg = [] \<and> take 1 s1 \<noteq> js_str ''-'' \<and> take 1 s1 \<noteq> js_str ''+''"
    unfolding s1_def sg_def by auto
  have 4: "px = js_str ''0x'' \<or> px = js_str ''0X'' \<or>
        px = [] \<and> take 2 s2 \<noteq> js_str ''0x'' \<and> take 2 s2 \<noteq> js_str ''0X''"
    unfolding s2_def px_def by auto
  have 5: "\<forall>c \<in> set ds. is_digit 16 c" unfolding ds_def by (auto dest: set_takeWhileD)
  have 6: "rest = [] \<or> \<not> is_digit 16 (hd rest)" unfolding rest_def using hd_dropWhile[of "is_digit 16" s2] by blast
  show ?thesis
    apply (rule exI[of _ ws], rule exI[of _ sg], rule exI[of _ px], rule exI[of _ ds],
        rule exI[of _ rest])
    using e e0 e1 e2 1 2 3 4 5 6 by simp
qed

lemma positional_mono: "positional_value 10 s \<le> positional_value 16 s"
  by (induction s) (auto intro!: add_mono mult_left_mono power_mono)

lemma decimal_reading_differs:
  assumes len: "2 \<le> length s" and dg: "\<forall>c \<in> set s. is_digit 10 c" and nz: "take 1 s \<noteq> js_str ''0''"
  shows "positional_value 10 s < positional_value 16 s"
proof -
  from len obtain c cs where s: "s = c # cs" by (cases s) auto
  with len have cs: "cs \<noteq> []" by auto
  from dg s have "is_digit 10 c" by simp
  then obtain d where d: "digit_value c = Some d" "d < 10"
    by (auto simp: is_digit_def split: option.splits)
  have "0 < d"
  proof (rule ccontr)
    assume "\<not> 0 < d"
    with d have "digit_value c = Some 0" by simp
    then have "unat c = 48"
      by (auto simp: digit_value_def Let_def split: if_splits)
    then have "c = 48" by (simp add: word_unat_eq_iff)
    with nz s show False by (simp add: js_str_def)
  qed
  have "(10::nat) ^ length cs < 16 ^ length cs"
    using cs by (intro power_strict_mono) auto
  with \<open>0 < d\<close> have lt: "d * 10 ^ length cs < d * 16 ^ length cs"
    by (intro mult_strict_left_mono) auto
  have "d * 10 ^ length cs + positional_value 10 cs < d * 16 ^ length cs + positional_value 16 cs"
    using lt positional_mono[of cs] by (rule add_less_le_mono)
  with d show ?thesis unfolding s by simp
qed

lemma parseInt_hex_parts:
  assumes "hex_parts ws sg px ds rest"
  shows "parseInt (ws @ sg @ px @ ds @ rest) 16 =
     (if ds = [] then NaN
      else to_number ((if sg = js_str ''-'' then - 1 else 1) * int (positional_value 16 ds)))"
  using assms unfolding hex_parts_def by (intro parseInt_shape) blast+

lemma hex_parts_total: "\<exists>ws sg px ds rest. str = ws @ sg @ px @ ds @ rest \<and> hex_parts ws sg px ds rest"
  unfolding hex_parts_def by (rule parseInt_shape_total)

lemma hex_digits_parts:
  assumes ne: "s \<noteq> []" and dg: "\<forall>c \<in> set s. is_digit 16 c"
  shows "hex_parts [] [] [] s []" and "hex_parts [] [] (js_str ''0x'') s []"
proof -
  from ne obtain c cs where s: "s = c # cs" by (cases s) auto
  with dg have c: "is_digit 16 c" by simp
  have w: "\<not> is_white (hd s)" using s c hex_digit_not_white by simp
  have m: "take 1 s \<noteq> js_str ''-''" "take 1 s \<noteq> js_str ''+''"
    using s c by (auto simp: js_str_def is_digit_def digit_value_def)
  have x: "\<not> is_digit 16 120" "\<not> is_digit 16 88"
    by (simp_all add: is_digit_def digit_value_def)
  have p: "take 2 s \<noteq> js_str ''0x''" "take 2 s \<noteq> js_str ''0X''"
  proof -
    show "take 2 s \<noteq> js_str ''0x''"
    proof
      assume "take 2 s = js_str ''0x''"
      then have "120 \<in> set (take 2 s)" by (simp add: js_str_def)
      then have "120 \<in> set s" by (rule in_set_takeD)
      with dg x show False by blast
    qed
    show "take 2 s \<noteq> js_str ''0X''"
    proof
      assume "take 2 s = js_str ''0X''"
      then have "88 \<in> set (take 2 s)" by (simp add: js_str_def)
      then have "88 \<in> set s" by (rule in_set_takeD)
      with dg x show False by blast
    qed
  qed
  show "hex_parts [] [] [] s []"
    unfolding hex_parts_def using ne w m p dg by simp
  show "hex_parts [] [] (js_str ''0x'') s []"
    unfolding hex_parts_def using ne dg by (simp add: js_str_def is_white_def)
qed

lemma parseInt_hex_digits:
  assumes ne: "s \<noteq> []" and dg: "\<forall>c \<in> set s. is_digit 16 c"
    and bound: "int (positional_value 16 s) \<le> 2 ^ 53"
  shows "parseInt s 16 = Num (int (positional_value 16 s))"
    and "parseInt (js_str ''0x'' @ s) 16 = Num (int (positional_value 16 s))"
  using parseInt_hex_parts[OF hex_digits_parts(1)[OF ne dg]]
    parseInt_hex_parts[OF hex_digits_parts(2)[OF ne dg]] ne bound
  by (simp_all add: to_number_def js_str_def)

lemma recorder_translateAddress:
  "snd (translateAddress recorder now fs []) =
     (case translate_request fs of None \<Rightarrow> [] | Some req \<Rightarrow> [req, GetTlbState, GetWorkingSets])"
  by (simp add: translateAddress_def translate_request_def fetchTlbState_def
      fetchWorkingSets_def recorder_def no_data_def)

text \<open>
  C10, as amended. \<^verbatim>\<open>translateAddress\<close> parses every entered virtual address with radix 16:
  the request it sends (when its guards let it send one) carries \<open>parseInt\<close> of the input
  with radix 16, and nothing is sent before it. Every string splits into leading white
  space, an optional sign, an optional prefix \<^verbatim>\<open>0x\<close> or \<^verbatim>\<open>0X\<close>, the longest run of
  hexadecimal digits that follows, and the rest, which is ignored. The number transmitted
  is the base-16 value of that run of digits, negated after a minus sign (the value itself
  as long as a JavaScript number holds it exactly, up to \<open>2^53\<close>, beyond that the number
  nearest to it); when the run is empty no integer is transmitted: the request carries
  \<open>NaN\<close>. In particular a non-empty string of hexadecimal digits, with or without the
  prefix, is sent as its base-16 value, and not as its decimal reading: for a string of
  decimal digits with at least two digits and no leading zero the base-16 value is larger
  than the decimal one.
\<close>

theorem translateAddress_sends_hexadecimal:
  "(\<forall>now fs.
      snd (translateAddress recorder now fs []) =
        (if selectedProcess fs = [] \<or> virtualAddress fs = [] \<or> connectionStatus fs \<noteq> ''connected''
         then []
         else [PostTranslateAddress (parseInt (selectedProcess fs) 0)
                 (parseInt (virtualAddress fs) 16), GetTlbState, GetWorkingSets])) \<and>
   (\<forall>str. \<exists>ws sg px ds rest. str = ws @ sg @ px @ ds @ rest \<and> hex_parts ws sg px ds rest) \<and>
   (\<forall>ws sg px ds rest. hex_parts ws sg px ds rest \<longrightarrow>
      parseInt (ws @ sg @ px @ ds @ rest) 16 =
        (if ds = [] then NaN
         else to_number ((if sg = js_str ''-'' then - 1 else 1) * int (positional_value 16 ds)))) \<and>
   (\<forall>now fs ws sg px ds rest.
      selectedProcess fs \<noteq> [] \<and> connectionStatus fs = ''connected'' \<and> virtualAddress fs \<noteq> [] \<and>
      virtualAddress fs = ws @ sg @ px @ ds @ rest \<and> hex_parts ws sg px ds rest \<longrightarrow>
      snd (translateAddress recorder now fs []) =
        [PostTranslateAddress (parseInt (selectedProcess fs) 0)
           (if ds = [] then NaN
            else to_number ((if sg = js_str ''-'' then - 1 else 1) * int (positional_value 16 ds))),
         GetTlbState, GetWorkingSets]) \<and>
   (\<forall>s. s \<noteq> [] \<and> (\<forall>c \<in> set s. is_digit 16 c) \<and> int (positional_value 16 s) \<le> 2 ^ 53 \<longrightarrow>
      parseInt s 16 = Num (int (positional_value 16 s)) \<and>
      parseInt (js_str ''0x'' @ s) 16 = Num (int (positional_value 16 s))) \<and>
   (\<forall>now fs.
      selectedProcess fs \<noteq> [] \<and> connectionStatus fs = ''connected'' \<and> virtualAddress fs \<noteq> [] \<and>
      (\<forall>c \<in> set (virtualAddress fs). is_digit 16 c) \<and>
      int (positional_value 16 (virtualAddress fs)) \<le> 2 ^ 53 \<longrightarrow>
      snd (translateAddress recorder now fs []) =
        [PostTranslateAddress (parseInt (selectedProcess fs) 0)
           (Num (int (positional_value 16 (virtualAddress fs)))), GetTlbState, GetWorkingSets]) \<and>
   (\<forall>s. 2 \<le> length s \<and> (\<forall>c \<in> set s. is_digit 10 c) \<and> take 1 s \<noteq> js_str ''0'' \<longrightarrow>
      positional_value 10 s < positional_value 16 s)"
proof -
  have 1: "snd (translateAddress recorder now fs []) =
        (if selectedProcess fs = [] \<or> virtualAddress fs = [] \<or> connectionStatus fs \<noteq> ''connected''
         then []
         else [PostTranslateAddress (parseInt (selectedProcess fs) 0)
                 (parseInt (virtualAddress fs) 16), GetTlbState, GetWorkingSets])" for now fs
    by (simp add: recorder_translateAddress translate_request_def)
  have 2: "\<exists>ws sg px ds rest. str = ws @ sg @ px @ ds @ rest \<and> hex_parts ws sg px ds rest" for str
    by (rule hex_parts_total)
  have 3: "parseInt (ws @ sg @ px @ ds @ rest) 16 =
        (if ds = [] then NaN
         else to_number ((if sg = js_str ''-'' then - 1 else 1) * int (positional_value 16 ds)))"
    if "hex_parts ws sg px ds rest" for ws sg px ds rest
    using that by (rule parseInt_hex_parts)
  have 4: "snd (translateAddress recorder now fs []) =
        [PostTranslateAddress (parseInt (selectedProcess fs) 0)
           (if ds = [] then NaN
            else to_number ((if sg = js_str ''-'' then - 1 else 1) * int (positional_value 16 ds))),
         GetTlbState, GetWorkingSets]"
    if h: "selectedProcess fs \<noteq> [] \<and> connectionStatus fs = ''connected'' \<and> virtualAddress fs \<noteq> [] \<and>
      virtualAddress fs = ws @ sg @ px @ ds @ rest \<and> hex_parts ws sg px ds rest"
    for now fs ws sg px ds rest
  proof -
    from h have "parseInt (virtualAddress fs) 16 =
        (if ds = [] then NaN
         else to_number ((if sg = js_str ''-'' then - 1 else 1) * int (positional_value 16 ds)))"
      using 3[of ws sg px ds rest] by simp
    moreover from h have "\<not> (selectedProcess fs = [] \<or> virtualAddress fs = [] \<or>
        connectionStatus fs \<noteq> ''connected'')" by blast
    ultimately show ?thesis unfolding 1 by (simp only: if_False)
  qed
  have 5: "parseInt s 16 = Num (int (positional_value 16 s)) \<and>
      parseInt (js_str ''0x'' @ s) 16 = Num (int (positional_value 16 s))"
    if "s \<noteq> [] \<and> (\<forall>c \<in> set s. is_digit 16 c) \<and> int (positional_value 16 s) \<le> 2 ^ 53" for s
    using that parseInt_hex_digits by blast
  have 6: "snd (translateAddress recorder now fs []) =
        [PostTranslateAddress (parseInt (selectedProcess fs) 0)
           (Num (int (positional_value 16 (virtualAddress fs)))), GetTlbState, GetWorkingSets]"
    if h: "selectedProcess fs \<noteq> [] \<and> connectionStatus fs = ''connected'' \<and> virtualAddress fs \<noteq> [] \<and>
      (\<forall>c \<in> set (virtualAddress fs). is_digit 16 c) \<and>
      int (positional_value 16 (virtualAddress fs)) \<le> 2 ^ 53" for now fs
  proof -
    from h have "parseInt (virtualAddress fs) 16 = Num (int (positional_value 16 (virtualAddress fs)))"
      using parseInt_hex_digits(1) by blast
    with h show ?thesis by (simp add: 1)
  qed
  have 7: "positional_value 10 s < positional_value 16 s"
    if "2 \<le> length s \<and> (\<forall>c \<in> set s. is_digit 10 c) \<and> take 1 s \<noteq> js_str ''0''" for s
    using that decimal_reading_differs by blast
  show ?thesis
    apply (intro conjI allI impI)
           apply (rule 1)
          apply (rule 2)
         apply (erule 3)
        apply (erule 4)
       apply (drule 5, erule conjunct1)
      apply (drule 5, erule conjunct2)
     apply (erule 6)
    apply (erule 7)
    done
qed

theorem translateAddress_sends_hexadecimal_witness:
  "hex_parts (js_str '' '') (js_str ''-'') (js_str ''0x'') (js_str ''1F'') (js_str ''g'') \<and>
   positional_value 16 (js_str ''1F'') = 31 \<and>
   snd (translateAddress recorder 0
          ((initial_app_state 0)\<lparr>connectionStatus := ''connected'', selectedProcess := js_str ''1'',
             virtualAddress := js_str '' -0x1Fg''\<rparr>) [])
     = [PostTranslateAddress (Num 1) (Num (- 31)), GetTlbState, GetWorkingSets] \<and>
   positional_value 16 (js_str ''1000'') = 4096 \<and> positional_value 10 (js_str ''1000'') = 1000 \<and>
   snd (translateAddress recorder 0
          ((initial_app_state 0)\<lparr>connectionStatus := ''connected'', selectedProcess := js_str ''1'',
             virtualAddress := js_str ''1000''\<rparr>) [])
     = [PostTranslateAddress (Num 1) (Num 4096), GetTlbState, GetWorkingSets]"
proof -
  define F where "F = (initial_app_state 0)\<lparr>connectionStatus := ''connected'',
      selectedProcess := js_str ''1'', virtualAddress := js_str '' -0x1Fg''\<rparr>"
  define G where "G = (initial_app_state 0)\<lparr>connectionStatus := ''connected'',
      selectedProcess := js_str ''1'', virtualAddress := js_str ''1000''\<rparr>"
  note T = translateAddress_sends_hexadecimal
  from T have T4: "\<forall>now fs ws sg px ds rest.
      selectedProcess fs \<noteq> [] \<and> connectionStatus fs = ''connected'' \<and> virtualAddress fs \<noteq> [] \<and>
      virtualAddress fs = ws @ sg @ px @ ds @ rest \<and> hex_parts ws sg px ds rest \<longrightarrow>
      snd (translateAddress recorder now fs []) =
        [PostTranslateAddress (parseInt (selectedProcess fs) 0)
           (if ds = [] then NaN
            else to_number ((if sg = js_str ''-'' then - 1 else 1) * int (positional_value 16 ds))),
         GetTlbState, GetWorkingSets]"
    by (elim conjE) assumption
  from T have T6: "\<forall>now fs.
      selectedProcess fs \<noteq> [] \<and> connectionStatus fs = ''connected'' \<and> virtualAddress fs \<noteq> [] \<and>
      (\<forall>c \<in> set (virtualAddress fs). is_digit 16 c) \<and>
      int (positional_value 16 (virtualAddress fs)) \<le> 2 ^ 53 \<longrightarrow>
      snd (translateAddress recorder now fs []) =
        [PostTranslateAddress (parseInt (selectedProcess fs) 0)
           (Num (int (positional_value 16 (virtualAddress fs)))), GetTlbState, GetWorkingSets]"
    by (elim conjE) assumption
  have hp: "hex_parts (js_str '' '') (js_str ''-'') (js_str ''0x'') (js_str ''1F'') (js_str ''g'')"
    by (simp add: hex_parts_def js_str_def is_white_def is_digit_def digit_value_def)
  have v31: "positional_value 16 (js_str ''1F'') = 31" by (simp add: js_str_def digit_value_def)
  have v16: "positional_value 16 (js_str ''1000'') = 4096" by (simp add: js_str_def digit_value_def)
  have v10: "positional_value 10 (js_str ''1000'') = 1000" by (simp add: js_str_def digit_value_def)
  have dg: "\<forall>c \<in> set (js_str ''1000''). is_digit 16 c"
    by (simp add: js_str_def is_digit_def digit_value_def)
  have bd: "int (positional_value 16 (js_str ''1000'')) \<le> 2 ^ 53" unfolding v16 by simp
  have pid: "parseInt (js_str ''1'') 0 = Num 1"
    by (simp add: parseInt_def js_str_def is_white_def is_digit_def digit_value_def digits_value_def
        to_number_def Let_def)
  have f1: "selectedProcess F = js_str ''1''" "connectionStatus F = ''connected''"
    "virtualAddress F = js_str '' '' @ js_str ''-'' @ js_str ''0x'' @ js_str ''1F'' @ js_str ''g''"
    by (simp_all add: F_def js_str_def)
  have g1: "selectedProcess G = js_str ''1''" "connectionStatus G = ''connected''"
    "virtualAddress G = js_str ''1000''"
    by (simp_all add: G_def)
  have ne: "js_str ''1'' \<noteq> []" "js_str ''1000'' \<noteq> []" "js_str ''1F'' \<noteq> []"
    "js_str '' '' @ js_str ''-'' @ js_str ''0x'' @ js_str ''1F'' @ js_str ''g'' \<noteq> []"
    by (simp_all add: js_str_def)
  from T4[rule_format, of F "js_str '' ''" "js_str ''-''" "js_str ''0x''" "js_str ''1F''"
      "js_str ''g''" 0] f1 hp ne
  have "snd (translateAddress recorder 0 F []) =
        [PostTranslateAddress (parseInt (js_str ''1'') 0)
           (to_number (- 1 * int (positional_value 16 (js_str ''1F'')))),
         GetTlbState, GetWorkingSets]"
    by simp
  then have r1: "snd (translateAddress recorder 0 F []) =
      [PostTranslateAddress (Num 1) (Num (- 31)), GetTlbState, GetWorkingSets]"
    unfolding pid v31 by (simp add: to_number_def)
  from T6[rule_format, of G 0] g1 dg bd ne
  have "snd (translateAddress recorder 0 G []) =
        [PostTranslateAddress (parseInt (js_str ''1'') 0)
           (Num (int (positional_value 16 (js_str ''1000'')))), GetTlbState, GetWorkingSets]"
    by simp
  then have r2: "snd (translateAddress recorder 0 G []) =
      [PostTranslateAddress (Num 1) (Num 4096), GetTlbState, GetWorkingSets]"
    unfolding pid v16 by simp
  from hp v31 r1 v16 v10 r2 show ?thesis unfolding F_def G_def by (intro conjI)
qed

text \<open>
  C10 as stated fails for an input without a hexadecimal digit to read: for the entered
  string \<^verbatim>\<open>zz\<close> the request carries \<open>NaN\<close>, so no integer, and no base-16 value of the
  input, is transmitted.
\<close>

theorem translateAddress_not_a_number_counterexample:
  "parseInt (js_str ''zz'') 16 = NaN \<and>
   snd (translateAddress recorder 0
          ((initial_app_state 0)\<lparr>connectionStatus := ''connected'', selectedProcess := js_str ''1'',
             virtualAddress := js_str ''zz''\<rparr>) [])
     = [PostTranslateAddress (Num 1) NaN, GetTlbState, GetWorkingSets]"
proof -
  have z: "parseInt (js_str ''zz'') 16 = NaN"
    by (simp add: parseInt_def js_str_def is_white_def is_digit_def digit_value_def Let_def)
  have pid: "parseInt (js_str ''1'') 0 = Num 1"
    by (simp add: parseInt_def js_str_def is_white_def is_digit_def digit_value_def digits_value_def
        to_number_def Let_def)
  have ne: "js_str ''1'' \<noteq> []" "js_str ''zz'' \<noteq> []" by (simp_all add: js_str_def)
  show ?thesis
    by (simp add: recorder_translateAddress translate_request_def initial_app_state_def z pid ne)
qed

end
